theory Spec2Isabelle
  imports Main
begin

section \<open>Configuration (download\_videos.py, lines 17-21)\<close>

definition OUTPUT_DIR :: string where
  "OUTPUT_DIR = ''Videos/Trim_Videos/raw_video''"

definition MAX_RETRIES :: int where
  "MAX_RETRIES = 3"

definition DEFAULT_MAX_WORKERS :: int where
  "DEFAULT_MAX_WORKERS = 8"

section \<open>The output store and the external fetch process\<close>

text \<open>
  The output store is the list of the paths that exist. \<open>os.path.join\<close> is the POSIX one,
  for two components: an absolute second component replaces the first.
\<close>

type_synonym store = "string list"

definition os_path_exists :: "store \<Rightarrow> string \<Rightarrow> bool" where
  "os_path_exists st p = (p \<in> set st)"

definition os_path_join :: "string \<Rightarrow> string \<Rightarrow> string" where
  "os_path_join a b =
     (case b of
        c # _ \<Rightarrow>
          if c = CHR ''/'' then b
          else if a = [] \<or> last a = CHR ''/'' then a @ b
          else a @ ''/'' @ b
      | [] \<Rightarrow> if a = [] \<or> last a = CHR ''/'' then a @ b else a @ ''/'' @ b)"

definition extensions :: "string list" where
  "extensions = [''.mp4'', ''.mkv'', ''.webm'', ''.flv'']"

text \<open>
  \<open>subprocess.run(cmd, check=True, timeout=1800)\<close> either returns (exit status zero),
  raises \<open>TimeoutExpired\<close>, raises \<open>CalledProcessError\<close> (non-zero exit status), or raises
  something else (for instance \<open>FileNotFoundError\<close>). The process may change the store.
  The fetcher is a parameter of the model: it is given the number of invocations made before
  this one, the title and the URL the command line is built from, and the store.
\<close>

datatype fetch_result = Exit0 | TimeoutExpired | CalledProcessError | OtherException

type_synonym fetcher = "nat \<Rightarrow> string \<Rightarrow> string \<Rightarrow> store \<Rightarrow> fetch_result \<times> store"

section \<open>Shared state: the counters, the store, standard output\<close>

datatype msg =
    Downloading
  | Downloaded
  | FileNotFound
  | TimeoutRetry int
  | TimeoutFailed
  | Retry int
  | DownloadFailed
  | DownloadError
  | Skipping

text \<open>A progress line \<open>[current/total] ... title\<close>.\<close>

datatype line = Line (seq: int) (tot: int) (what: msg) (subject: string)

text \<open>
  The module's global counters, the store, and two histories: \<open>calls\<close> counts the
  invocations of the fetch process, \<open>out\<close> is what was printed, oldest line first.
  Of a printed line the numbers, the kind of message and the title are kept; \<open>print\<close>
  itself is taken not to raise.
\<close>

record world =
  success_count :: int
  skip_count :: int
  fail_count :: int
  completed_count :: int
  store :: store
  calls :: nat
  out :: "line list"

definition print :: "line \<Rightarrow> world \<Rightarrow> world" where
  "print l w = w\<lparr>out := out w @ [l]\<rparr>"

definition subprocess_run :: "fetcher \<Rightarrow> string \<Rightarrow> string \<Rightarrow> world \<Rightarrow> fetch_result \<times> world" where
  "subprocess_run f title url w =
     (case f (calls w) title url (store w) of
        (r, st') \<Rightarrow> (r, w\<lparr>store := st', calls := calls w + 1\<rparr>))"

text \<open>The three critical sections that record a terminal outcome.\<close>

definition count_success :: "world \<Rightarrow> world" where
  "count_success w =
     w\<lparr>success_count := success_count w + 1, completed_count := completed_count w + 1\<rparr>"

definition count_fail :: "world \<Rightarrow> world" where
  "count_fail w =
     w\<lparr>fail_count := fail_count w + 1, completed_count := completed_count w + 1\<rparr>"

definition count_skip :: "world \<Rightarrow> world" where
  "count_skip w =
     w\<lparr>skip_count := skip_count w + 1, completed_count := completed_count w + 1\<rparr>"

section \<open>video\_exists (lines 108-116)\<close>

fun exists_loop :: "store \<Rightarrow> string \<Rightarrow> string list \<Rightarrow> bool" where
  "exists_loop st title [] = False"
| "exists_loop st title (ext # exts) =
     (if os_path_exists st (os_path_join OUTPUT_DIR (title @ ext)) then True
      else exists_loop st title exts)"

definition video_exists :: "store \<Rightarrow> string \<Rightarrow> bool" where
  "video_exists st title = exists_loop st title extensions"

section \<open>download\_video (lines 118-200)\<close>

text \<open>The probe of lines 149-154: the first extension whose file exists.\<close>

fun find_downloaded :: "store \<Rightarrow> string \<Rightarrow> string list \<Rightarrow> string option" where
  "find_downloaded st title [] = None"
| "find_downloaded st title (ext # exts) =
     (let potential_file = os_path_join OUTPUT_DIR (title @ ext)
      in if os_path_exists st potential_file then Some potential_file
         else find_downloaded st title exts)"

text \<open>\<open>if downloaded_file:\<close> is false for \<open>None\<close> and for the empty string.\<close>

definition truthy :: "string option \<Rightarrow> bool" where
  "truthy d = (case d of None \<Rightarrow> False | Some p \<Rightarrow> p \<noteq> [])"

function download_video ::
  "fetcher \<Rightarrow> string \<Rightarrow> string \<Rightarrow> int \<Rightarrow> int \<Rightarrow> world \<Rightarrow> bool \<times> world" where
  "download_video f title url total_videos retry_count w =
     (let current = completed_count w + 1;
          w1 = print (Line current total_videos Downloading title) w;
          r = fst (subprocess_run f title url w1);
          w2 = snd (subprocess_run f title url w1)
      in case r of
           Exit0 \<Rightarrow>
             if truthy (find_downloaded (store w2) title extensions)
             then (True, print (Line current total_videos Downloaded title) (count_success w2))
             else (False, print (Line current total_videos FileNotFound title) (count_fail w2))
         | TimeoutExpired \<Rightarrow>
             (let current = completed_count w2 + 1
              in if retry_count < MAX_RETRIES
                 then download_video f title url total_videos (retry_count + 1)
                        (print (Line current total_videos (TimeoutRetry (retry_count + 1)) title) w2)
                 else (False, print (Line current total_videos TimeoutFailed title) (count_fail w2)))
         | CalledProcessError \<Rightarrow>
             (let current = completed_count w2 + 1
              in if retry_count < MAX_RETRIES
                 then download_video f title url total_videos (retry_count + 1)
                        (print (Line current total_videos (Retry (retry_count + 1)) title) w2)
                 else (False, print (Line current total_videos DownloadFailed title) (count_fail w2)))
         | OtherException \<Rightarrow>
             (let current = completed_count w2 + 1
              in (False, print (Line current total_videos DownloadError title) (count_fail w2))))"
  by pat_completeness auto
termination
  by (relation "measure (\<lambda>(f, title, url, total_videos, retry_count, w). nat (MAX_RETRIES - retry_count))")
     auto

declare download_video.simps [simp del]

text \<open>The state in which \<open>subprocess.run\<close> returns or raises, with its result.\<close>

abbreviation started :: "fetcher \<Rightarrow> string \<Rightarrow> string \<Rightarrow> int \<Rightarrow> world \<Rightarrow> fetch_result \<times> world" where
  "started f t u n w \<equiv>
     subprocess_run f t u (print (Line (completed_count w + 1) n Downloading t) w)"

section \<open>download\_video\_wrapper (lines 202-219) and the sequential loop of main (lines 267-278)\<close>

record video =
  title :: string
  url :: string

datatype status = skipped | success | failed

definition download_video_wrapper ::
  "fetcher \<Rightarrow> video \<Rightarrow> int \<Rightarrow> world \<Rightarrow> (string \<times> status) \<times> world" where
  "download_video_wrapper f video_info total_videos w =
     (if video_exists (store w) (title video_info)
      then (let w1 = count_skip w;
                current = completed_count w1
            in ((title video_info, skipped),
                print (Line current total_videos Skipping (title video_info)) w1))
      else (case download_video f (title video_info) (url video_info) total_videos 0 w of
              (ok, w1) \<Rightarrow> ((title video_info, if ok then success else failed), w1)))"

text \<open>\<open>for video in videos: result = download_video_wrapper(video, len(videos))\<close>;
  the results, which the source drops, are kept here in order.\<close>

fun for_videos ::
  "fetcher \<Rightarrow> int \<Rightarrow> video list \<Rightarrow> world \<Rightarrow> (string \<times> status) list \<times> world" where
  "for_videos f total_videos [] w = ([], w)"
| "for_videos f total_videos (v # vs) w =
     (case download_video_wrapper f v total_videos w of
        (r, w1) \<Rightarrow> (case for_videos f total_videos vs w1 of (rs, w2) \<Rightarrow> (r # rs, w2)))"

text \<open>The counters are reset before the batch starts (lines 267-271).\<close>

definition reset :: "store \<Rightarrow> world" where
  "reset st =
     \<lparr>success_count = 0, skip_count = 0, fail_count = 0, completed_count = 0,
      store = st, calls = 0, out = []\<rparr>"

definition main_sequential ::
  "fetcher \<Rightarrow> video list \<Rightarrow> store \<Rightarrow> (string \<times> status) list \<times> world" where
  "main_sequential f videos st = for_videos f (int (length videos)) videos (reset st)"



text \<open>The lines that report a terminal outcome of an item.\<close>

fun terminal :: "msg \<Rightarrow> bool" where
  "terminal Downloaded = True"
| "terminal FileNotFound = True"
| "terminal TimeoutFailed = True"
| "terminal DownloadFailed = True"
| "terminal DownloadError = True"
| "terminal Skipping = True"
| "terminal Downloading = False"
| "terminal (TimeoutRetry k) = False"
| "terminal (Retry k) = False"

definition final_line :: "line \<Rightarrow> bool" where
  "final_line l = terminal (what l)"

section \<open>The worker pool of main (lines 279-298)\<close>

text \<open>
  Under \<open>ThreadPoolExecutor\<close> the wrapper calls interleave. Each worker is at a program
  point of \<open>download_video_wrapper\<close>; one step of a worker is one critical section under
  \<open>progress_lock\<close>, one call of \<open>print\<close>, one run of the fetch process, or one probe of
  the store. The local variables a worker carries are the arguments of its program point.
  The wrapper catches whatever the fetch raises and \<open>print\<close> is taken not to raise, so
  \<open>future.result()\<close> returns and the handler of lines 293-298 has no step here.
\<close>

datatype pc =
    Queued
      \<comment> \<open>submitted, not yet picked up by a worker\<close>
  | AtExists
      \<comment> \<open>line 208: about to call \<open>video_exists\<close>\<close>
  | AtSkipLock
      \<comment> \<open>lines 210-213\<close>
  | AtReadCurrent int
      \<comment> \<open>lines 136-137, with \<open>retry_count\<close>\<close>
  | AtRun int int
      \<comment> \<open>line 140, with \<open>retry_count\<close> and \<open>current\<close>\<close>
  | AtProbe int
      \<comment> \<open>lines 149-156, with \<open>current\<close>\<close>
  | AtCountSuccess int
      \<comment> \<open>lines 157-159, with \<open>current\<close>\<close>
  | AtCountFail msg int
      \<comment> \<open>lines 163-165, 176-178 and 188-190, with the message to print and \<open>current\<close>\<close>
  | AtCaughtTimeout int
      \<comment> \<open>lines 170-172, with \<open>retry_count\<close>\<close>
  | AtCaughtProcess int
      \<comment> \<open>lines 182-184, with \<open>retry_count\<close>\<close>
  | AtCaughtOther
      \<comment> \<open>lines 195-198\<close>
  | AtPrint line pc
      \<comment> \<open>a call of \<open>print\<close>, and where the worker goes on\<close>
  | Done status
      \<comment> \<open>the wrapper has returned\<close>

fun worker_step :: "fetcher \<Rightarrow> int \<Rightarrow> video \<Rightarrow> world \<Rightarrow> pc \<Rightarrow> world \<times> pc" where
  "worker_step f n v w Queued = (w, AtExists)"
| "worker_step f n v w AtExists =
     (if video_exists (store w) (title v) then (w, AtSkipLock) else (w, AtReadCurrent 0))"
| "worker_step f n v w AtSkipLock =
     (let w1 = count_skip w;
          current = completed_count w1
      in (w1, AtPrint (Line current n Skipping (title v)) (Done skipped)))"
| "worker_step f n v w (AtReadCurrent retry_count) =
     (let current = completed_count w + 1
      in (w, AtPrint (Line current n Downloading (title v)) (AtRun retry_count current)))"
| "worker_step f n v w (AtRun retry_count current) =
     (case subprocess_run f (title v) (url v) w of
        (Exit0, w1) \<Rightarrow> (w1, AtProbe current)
      | (TimeoutExpired, w1) \<Rightarrow> (w1, AtCaughtTimeout retry_count)
      | (CalledProcessError, w1) \<Rightarrow> (w1, AtCaughtProcess retry_count)
      | (OtherException, w1) \<Rightarrow> (w1, AtCaughtOther))"
| "worker_step f n v w (AtProbe current) =
     (if truthy (find_downloaded (store w) (title v) extensions)
      then (w, AtCountSuccess current)
      else (w, AtCountFail FileNotFound current))"
| "worker_step f n v w (AtCountSuccess current) =
     (count_success w, AtPrint (Line current n Downloaded (title v)) (Done success))"
| "worker_step f n v w (AtCountFail m current) =
     (count_fail w, AtPrint (Line current n m (title v)) (Done failed))"
| "worker_step f n v w (AtCaughtTimeout retry_count) =
     (let current = completed_count w + 1
      in if retry_count < MAX_RETRIES
         then (w, AtPrint (Line current n (TimeoutRetry (retry_count + 1)) (title v))
                    (AtReadCurrent (retry_count + 1)))
         else (w, AtCountFail TimeoutFailed current))"
| "worker_step f n v w (AtCaughtProcess retry_count) =
     (let current = completed_count w + 1
      in if retry_count < MAX_RETRIES
         then (w, AtPrint (Line current n (Retry (retry_count + 1)) (title v))
                    (AtReadCurrent (retry_count + 1)))
         else (w, AtCountFail DownloadFailed current))"
| "worker_step f n v w AtCaughtOther =
     (let current = completed_count w + 1
      in (count_fail w, AtPrint (Line current n DownloadError (title v)) (Done failed)))"
| "worker_step f n v w (AtPrint l k) = (print l w, k)"
| "worker_step f n v w (Done s) = (w, Done s)"

text \<open>
  The pool: the shared state and one program point per submitted item. An item leaves the
  queue in submission order, and only while fewer than \<open>max_workers\<close> items are being
  worked on.
\<close>

record pool =
  shared :: world
  workers :: "pc list"

fun busy :: "pc \<Rightarrow> bool" where
  "busy Queued = False"
| "busy (Done s) = False"
| "busy p = True"

fun finished :: "pc \<Rightarrow> bool" where
  "finished (Done s) = True"
| "finished p = False"

definition enabled :: "nat \<Rightarrow> pc list \<Rightarrow> nat \<Rightarrow> bool" where
  "enabled max_workers ps i =
     (i < length ps \<and>
      (case ps ! i of
         Queued \<Rightarrow> length (filter busy ps) < max_workers \<and> Queued \<notin> set (take i ps)
       | Done s \<Rightarrow> False
       | _ \<Rightarrow> True))"

text \<open>Worker \<open>i\<close> takes its next step; a worker that cannot move leaves the pool as it is.\<close>

definition step :: "nat \<Rightarrow> fetcher \<Rightarrow> video list \<Rightarrow> pool \<Rightarrow> nat \<Rightarrow> pool" where
  "step max_workers f videos c i =
     (if enabled max_workers (workers c) i \<and> i < length videos
      then (case worker_step f (int (length videos)) (videos ! i) (shared c) (workers c ! i) of
              (w1, p1) \<Rightarrow> \<lparr>shared = w1, workers = (workers c)[i := p1]\<rparr>)
      else c)"

fun run :: "nat \<Rightarrow> fetcher \<Rightarrow> video list \<Rightarrow> pool \<Rightarrow> nat list \<Rightarrow> pool" where
  "run max_workers f videos c [] = c"
| "run max_workers f videos c (i # schedule) =
     run max_workers f videos (step max_workers f videos c i) schedule"

definition submitted :: "video list \<Rightarrow> store \<Rightarrow> pool" where
  "submitted videos st = \<lparr>shared = reset st, workers = replicate (length videos) Queued\<rparr>"

definition main_concurrent :: "nat \<Rightarrow> fetcher \<Rightarrow> video list \<Rightarrow> store \<Rightarrow> nat list \<Rightarrow> pool" where
  "main_concurrent max_workers f videos st schedule =
     run max_workers f videos (submitted videos st) schedule"


definition all_finished :: "pool \<Rightarrow> bool" where
  "all_finished c = list_all finished (workers c)"



text \<open>A worker alone: its program point and the shared state after one more step.\<close>

definition alone :: "fetcher \<Rightarrow> int \<Rightarrow> video \<Rightarrow> world \<times> pc \<Rightarrow> world \<times> pc" where
  "alone f n v x = worker_step f n v (fst x) (snd x)"

text \<open>A program point of a worker that has left the queue.\<close>

fun picked_up :: "pc \<Rightarrow> bool" where
  "picked_up Queued = False"
| "picked_up (AtPrint l k) = picked_up k"
| "picked_up p = True"





text \<open>Two workers that take their steps in turn, eight steps each.\<close>

definition in_turn :: "nat list" where
  "in_turn = [0, 1, 0, 1, 0, 1, 0, 1, 0, 1, 0, 1, 0, 1, 0, 1]"

section \<open>read\_video\_urls (lines 67-106)\<close>

text \<open>
  A row as \<open>csv.DictReader\<close> yields it: a dictionary from column names to cells. A cell is
  a string, or \<open>None\<close> where the line was shorter than the header. Strings are Python
  strings whose code points are below 256; \<open>isspace\<close> and \<open>lower\<close> are Python's on
  that range.
\<close>

type_synonym row = "string \<rightharpoonup> string option"

definition isspace :: "char \<Rightarrow> bool" where
  "isspace c = ((of_char c :: nat) \<in> {9, 10, 11, 12, 13, 28, 29, 30, 31, 32, 133, 160})"

definition strip :: "string \<Rightarrow> string" where
  "strip s = rev (dropWhile isspace (rev (dropWhile isspace s)))"

definition lower_char :: "char \<Rightarrow> char" where
  "lower_char c =
     (let k = (of_char c :: nat)
      in if (65 \<le> k \<and> k \<le> 90) \<or> (192 \<le> k \<and> k \<le> 214) \<or> (216 \<le> k \<and> k \<le> 222)
         then char_of (k + 32) else c)"

definition lower :: "string \<Rightarrow> string" where
  "lower s = map lower_char s"

definition startswith :: "string \<Rightarrow> string \<Rightarrow> bool" where
  "startswith s p = (take (length p) s = p)"

datatype exit = SystemExit int

text \<open>
  The loop over the rows. \<open>row[title_key].strip()\<close> on a \<open>None\<close> cell raises
  \<open>AttributeError\<close>, which line 102 catches and turns into \<open>sys.exit(1)\<close>.
\<close>

fun read_rows :: "row list \<Rightarrow> video list \<Rightarrow> exit + video list" where
  "read_rows [] videos = Inr videos"
| "read_rows (row # rows) videos =
     (let title_key = (if row ''Title'' \<noteq> None then ''Title'' else ''title'');
          url_key = (if row ''URL'' \<noteq> None then ''URL'' else ''url'')
      in if row title_key = None \<or> row url_key = None then read_rows rows videos
         else (case (row title_key, row url_key) of
                 (Some (Some t), Some (Some u)) \<Rightarrow>
                   (let title = strip t;
                        url = strip u
                    in if title = [] \<or> url = [] then read_rows rows videos
                       else if lower url = ''privacy url'' \<or> \<not> startswith url ''http''
                       then read_rows rows videos
                       else read_rows rows (videos @ [\<lparr>title = title, url = url\<rparr>]))
               | _ \<Rightarrow> Inl (SystemExit 1)))"

text \<open>The file is \<open>None\<close> when it cannot be opened (line 99).\<close>

definition read_video_urls :: "row list option \<Rightarrow> exit + video list" where
  "read_video_urls file =
     (case file of None \<Rightarrow> Inl (SystemExit 1) | Some rows \<Rightarrow> read_rows rows [])"

text \<open>
  The filter in the words of the specification: the text of a cell, the rows that are left
  out, and the work item a row that is kept gives.
\<close>

definition cell :: "row \<Rightarrow> string \<Rightarrow> string \<Rightarrow> string" where
  "cell row upper_key lower_key =
     (case row (if row upper_key \<noteq> None then upper_key else lower_key) of
        Some (Some s) \<Rightarrow> strip s
      | _ \<Rightarrow> [])"

definition lacks_column :: "row \<Rightarrow> string \<Rightarrow> string \<Rightarrow> bool" where
  "lacks_column row upper_key lower_key = (row upper_key = None \<and> row lower_key = None)"

definition excluded :: "row \<Rightarrow> bool" where
  "excluded row =
     (lacks_column row ''Title'' ''title'' \<or> lacks_column row ''URL'' ''url'' \<or>
      cell row ''Title'' ''title'' = [] \<or> cell row ''URL'' ''url'' = [] \<or>
      lower (cell row ''URL'' ''url'') = ''privacy url'' \<or>
      \<not> startswith (cell row ''URL'' ''url'') ''http'')"

definition work_item :: "row \<Rightarrow> video" where
  "work_item row = \<lparr>title = cell row ''Title'' ''title'', url = cell row ''URL'' ''url''\<rparr>"

definition no_missing_cell :: "row \<Rightarrow> bool" where
  "no_missing_cell row =
     (lacks_column row ''Title'' ''title'' \<or> lacks_column row ''URL'' ''url'' \<or>
      (row (if row ''Title'' \<noteq> None then ''Title'' else ''title'') \<noteq> Some None \<and>
       row (if row ''URL'' \<noteq> None then ''URL'' else ''url'') \<noteq> Some None))"

section \<open>Fetchers and items of the scenarios\<close>

text \<open>A fetch that exits with status zero and leaves \<open>title.mp4\<close> in the store.\<close>

definition fetch_mp4 :: fetcher where
  "fetch_mp4 k t u st = (Exit0, os_path_join OUTPUT_DIR (t @ ''.mp4'') # st)"

text \<open>A fetch that always exits with a non-zero status.\<close>

definition fetch_process_error :: fetcher where
  "fetch_process_error k t u st = (CalledProcessError, st)"

text \<open>A fetch that always runs into the timeout.\<close>

definition fetch_timeout :: fetcher where
  "fetch_timeout k t u st = (TimeoutExpired, st)"

text \<open>A fetch that exits with status zero and writes nothing.\<close>

definition fetch_nothing :: fetcher where
  "fetch_nothing k t u st = (Exit0, st)"


text \<open>
  Rows of a file: a good row with blanks around the title, a private video, a row without a
  URL column, a URL that is no web address, and a row whose title is blank.
\<close>

definition row_good :: row where
  "row_good = [''Title'' \<mapsto> Some '' A '', ''URL'' \<mapsto> Some ''http://x/a'']"

definition row_private :: row where
  "row_private = [''title'' \<mapsto> Some ''B'', ''url'' \<mapsto> Some ''Privacy URL'']"

definition row_no_url :: row where
  "row_no_url = [''Title'' \<mapsto> Some ''C'']"

definition row_ftp :: row where
  "row_ftp = [''Title'' \<mapsto> Some ''D'', ''URL'' \<mapsto> Some ''ftp://x/d'']"

definition row_blank_title :: row where
  "row_blank_title = [''Title'' \<mapsto> Some ''  '', ''URL'' \<mapsto> Some ''http://x/e'']"

definition video_A :: video where
  "video_A = \<lparr>title = ''A'', url = ''http://x/a''\<rparr>"

definition video_B :: video where
  "video_B = \<lparr>title = ''B'', url = ''http://x/b''\<rparr>"


section \<open>Facts about the shared state\<close>

lemma print_simps [simp]:
  "success_count (print l w) = success_count w"
  "skip_count (print l w) = skip_count w"
  "fail_count (print l w) = fail_count w"
  "completed_count (print l w) = completed_count w"
  "store (print l w) = store w"
  "calls (print l w) = calls w"
  "out (print l w) = out w @ [l]"
  by (simp_all add: print_def)

lemma run_simps [simp]:
  "success_count (snd (subprocess_run f t u w)) = success_count w"
  "skip_count (snd (subprocess_run f t u w)) = skip_count w"
  "fail_count (snd (subprocess_run f t u w)) = fail_count w"
  "completed_count (snd (subprocess_run f t u w)) = completed_count w"
  "calls (snd (subprocess_run f t u w)) = calls w + 1"
  "out (snd (subprocess_run f t u w)) = out w"
  "store (snd (subprocess_run f t u w)) = snd (f (calls w) t u (store w))"
  "fst (subprocess_run f t u w) = fst (f (calls w) t u (store w))"
  by (simp_all add: subprocess_run_def split: prod.splits)

lemma count_simps [simp]:
  "success_count (count_success w) = success_count w + 1"
  "skip_count (count_success w) = skip_count w"
  "fail_count (count_success w) = fail_count w"
  "completed_count (count_success w) = completed_count w + 1"
  "store (count_success w) = store w"
  "calls (count_success w) = calls w"
  "out (count_success w) = out w"
  "success_count (count_fail w) = success_count w"
  "skip_count (count_fail w) = skip_count w"
  "fail_count (count_fail w) = fail_count w + 1"
  "completed_count (count_fail w) = completed_count w + 1"
  "store (count_fail w) = store w"
  "calls (count_fail w) = calls w"
  "out (count_fail w) = out w"
  "success_count (count_skip w) = success_count w"
  "skip_count (count_skip w) = skip_count w + 1"
  "fail_count (count_skip w) = fail_count w"
  "completed_count (count_skip w) = completed_count w + 1"
  "store (count_skip w) = store w"
  "calls (count_skip w) = calls w"
  "out (count_skip w) = out w"
  by (simp_all add: count_success_def count_fail_def count_skip_def)

lemma dv_exit0:
  "fst (started f t u n w) = Exit0 \<Longrightarrow>
   download_video f t u n rc w =
     (if truthy (find_downloaded (store (snd (started f t u n w))) t extensions)
      then (True, print (Line (completed_count w + 1) n Downloaded t)
                    (count_success (snd (started f t u n w))))
      else (False, print (Line (completed_count w + 1) n FileNotFound t)
                     (count_fail (snd (started f t u n w)))))"
  by (subst download_video.simps) (simp add: Let_def)

lemma dv_timeout_retry:
  "fst (started f t u n w) = TimeoutExpired \<Longrightarrow> rc < MAX_RETRIES \<Longrightarrow>
   download_video f t u n rc w =
     download_video f t u n (rc + 1)
       (print (Line (completed_count w + 1) n (TimeoutRetry (rc + 1)) t) (snd (started f t u n w)))"
  by (subst download_video.simps) (simp add: Let_def)

lemma dv_timeout_fail:
  "fst (started f t u n w) = TimeoutExpired \<Longrightarrow> \<not> rc < MAX_RETRIES \<Longrightarrow>
   download_video f t u n rc w =
     (False, print (Line (completed_count w + 1) n TimeoutFailed t)
               (count_fail (snd (started f t u n w))))"
  by (subst download_video.simps) (simp add: Let_def)

lemma dv_proc_retry:
  "fst (started f t u n w) = CalledProcessError \<Longrightarrow> rc < MAX_RETRIES \<Longrightarrow>
   download_video f t u n rc w =
     download_video f t u n (rc + 1)
       (print (Line (completed_count w + 1) n (Retry (rc + 1)) t) (snd (started f t u n w)))"
  by (subst download_video.simps) (simp add: Let_def)

lemma dv_proc_fail:
  "fst (started f t u n w) = CalledProcessError \<Longrightarrow> \<not> rc < MAX_RETRIES \<Longrightarrow>
   download_video f t u n rc w =
     (False, print (Line (completed_count w + 1) n DownloadFailed t)
               (count_fail (snd (started f t u n w))))"
  by (subst download_video.simps) (simp add: Let_def)

lemma dv_other:
  "fst (started f t u n w) = OtherException \<Longrightarrow>
   download_video f t u n rc w =
     (False, print (Line (completed_count w + 1) n DownloadError t)
               (count_fail (snd (started f t u n w))))"
  by (subst download_video.simps) (simp add: Let_def)

lemmas dv_unfold = dv_exit0 dv_timeout_retry dv_timeout_fail dv_proc_retry dv_proc_fail dv_other

lemma dv_induct [case_names attempt]:
  assumes "\<And>rc w.
     (\<And>m. fst (started f t u n w) = TimeoutExpired \<or> fst (started f t u n w) = CalledProcessError \<Longrightarrow>
           rc < MAX_RETRIES \<Longrightarrow>
           P (rc + 1) (print (Line (completed_count w + 1) n m t) (snd (started f t u n w))))
     \<Longrightarrow> P rc w"
  shows "P rc w"
proof (induction k \<equiv> "nat (MAX_RETRIES - rc)" arbitrary: rc w)
  case 0
  then have "\<not> rc < MAX_RETRIES"
    by simp
  then show ?case
    by - (rule assms, simp)
next
  case (Suc k)
  have "P (rc + 1) w'" if "rc < MAX_RETRIES" for w'
  proof -
    from that Suc.hyps(2) have "k = nat (MAX_RETRIES - (rc + 1))"
      by arith
    then show ?thesis
      by (rule Suc.hyps(1))
  qed
  then show ?case
    by - (rule assms, simp)
qed

lemma download_video_counts:
  "completed_count (snd (download_video f t u n rc w)) = completed_count w + 1 \<and>
   skip_count (snd (download_video f t u n rc w)) = skip_count w \<and>
   success_count (snd (download_video f t u n rc w)) =
     success_count w + (if fst (download_video f t u n rc w) then 1 else 0) \<and>
   fail_count (snd (download_video f t u n rc w)) =
     fail_count w + (if fst (download_video f t u n rc w) then 0 else 1)"
proof (induction rc w rule: dv_induct[where f=f and t=t and u=u and n=n])
  case (attempt rc w)
  show ?case
    by (cases "fst (started f t u n w)"; cases "rc < MAX_RETRIES")
       (simp_all add: dv_unfold attempt)
qed

lemma nat_retry_step: "rc < M \<Longrightarrow> nat (M - rc) = Suc (nat (M - (rc + 1)))" for rc M :: int
  by arith

lemma download_video_calls_le:
  "calls w < calls (snd (download_video f t u n rc w)) \<and>
   calls (snd (download_video f t u n rc w)) \<le> calls w + nat (MAX_RETRIES - rc) + 1"
proof (induction rc w rule: dv_induct[where f=f and t=t and u=u and n=n])
  case (attempt rc w)
  show ?case
  proof (cases "fst (started f t u n w) = TimeoutExpired \<or>
                fst (started f t u n w) = CalledProcessError")
    case fails: True
    show ?thesis
    proof (cases "rc < MAX_RETRIES")
      case True
      note ih = attempt[OF fails True]
      from ih[of "TimeoutRetry (rc + 1)"] ih[of "Retry (rc + 1)"] fails True show ?thesis
        by (auto simp add: dv_unfold nat_retry_step)
    next
      case False
      with fails show ?thesis by (auto simp add: dv_unfold)
    qed
  next
    case False
    then show ?thesis
      by (cases "fst (started f t u n w)") (simp_all add: dv_unfold)
  qed
qed

lemma os_path_join_nonempty: "os_path_join OUTPUT_DIR b \<noteq> []"
  by (auto simp add: os_path_join_def OUTPUT_DIR_def split: list.splits)

lemma truthy_find_downloaded:
  "truthy (find_downloaded st t exts) = exists_loop st t exts"
  by (induction exts) (simp_all add: truthy_def Let_def os_path_join_nonempty)

lemma probe_is_video_exists:
  "truthy (find_downloaded st t extensions) = video_exists st t"
  by (simp add: truthy_find_downloaded video_exists_def)

lemma exists_loop_iff:
  "exists_loop st t exts = (\<exists>ext \<in> set exts. os_path_exists st (os_path_join OUTPUT_DIR (t @ ext)))"
  by (induction exts) auto

lemma download_video_always_fails:
  assumes fails: "\<And>k st. fst (f k t u st) = TimeoutExpired \<or> fst (f k t u st) = CalledProcessError"
  shows "\<not> fst (download_video f t u n rc w) \<and>
         calls (snd (download_video f t u n rc w)) = calls w + nat (MAX_RETRIES - rc) + 1"
proof (induction rc w rule: dv_induct[where f=f and t=t and u=u and n=n])
  case (attempt rc w)
  have r: "fst (started f t u n w) = TimeoutExpired \<or> fst (started f t u n w) = CalledProcessError"
    using fails by simp
  show ?case
  proof (cases "rc < MAX_RETRIES")
    case True
    note ih = attempt[OF r True]
    from r ih[of "TimeoutRetry (rc + 1)"] ih[of "Retry (rc + 1)"] True show ?thesis
      by (auto simp add: dv_unfold nat_retry_step)
  next
    case False
    with r show ?thesis by (auto simp add: dv_unfold)
  qed
qed

section \<open>The retry bound\<close>

text \<open>
  Claim C2. Called by the wrapper (\<open>retry_count = 0\<close>), \<open>download_video\<close> never runs the
  fetch process more than \<open>MAX_RETRIES + 1\<close> times for one item, whatever the process does.
  When every invocation ends in a timeout or a non-zero exit status, it runs the process
  exactly \<open>MAX_RETRIES + 1\<close> times and then returns \<open>False\<close>, having counted the item
  once as failed and once as completed.
\<close>

theorem retry_bound:
  "calls (snd (download_video f t u n 0 w)) \<le> calls w + nat (MAX_RETRIES + 1) \<and>
   ((\<forall>k st. fst (f k t u st) = TimeoutExpired \<or> fst (f k t u st) = CalledProcessError) \<longrightarrow>
      \<not> fst (download_video f t u n 0 w) \<and>
      calls (snd (download_video f t u n 0 w)) = calls w + nat (MAX_RETRIES + 1) \<and>
      fail_count (snd (download_video f t u n 0 w)) = fail_count w + 1 \<and>
      completed_count (snd (download_video f t u n 0 w)) = completed_count w + 1 \<and>
      success_count (snd (download_video f t u n 0 w)) = success_count w)"
proof (intro conjI impI)
  show "calls (snd (download_video f t u n 0 w)) \<le> calls w + nat (MAX_RETRIES + 1)"
    using download_video_calls_le[of w f t u n 0] by (simp add: MAX_RETRIES_def)
next
  assume a: "\<forall>k st. fst (f k t u st) = TimeoutExpired \<or> fst (f k t u st) = CalledProcessError"
  then have *: "\<not> fst (download_video f t u n 0 w) \<and>
         calls (snd (download_video f t u n 0 w)) = calls w + nat (MAX_RETRIES - 0) + 1"
    by (intro download_video_always_fails) simp
  from * show "\<not> fst (download_video f t u n 0 w)" by simp
  from * show "calls (snd (download_video f t u n 0 w)) = calls w + nat (MAX_RETRIES + 1)"
    by (simp add: MAX_RETRIES_def)
  from * download_video_counts[of f t u n 0 w]
  show "fail_count (snd (download_video f t u n 0 w)) = fail_count w + 1"
    "completed_count (snd (download_video f t u n 0 w)) = completed_count w + 1"
    "success_count (snd (download_video f t u n 0 w)) = success_count w"
    by simp_all
qed

theorem retry_bound_witness:
  "(\<forall>k st. fst (fetch_process_error k ''C'' ''http://x/c'' st) = TimeoutExpired \<or>
            fst (fetch_process_error k ''C'' ''http://x/c'' st) = CalledProcessError) \<and>
   \<not> fst (download_video fetch_process_error ''C'' ''http://x/c'' 1 0 (reset [])) \<and>
   calls (snd (download_video fetch_process_error ''C'' ''http://x/c'' 1 0 (reset []))) = 4 \<and>
   fail_count (snd (download_video fetch_process_error ''C'' ''http://x/c'' 1 0 (reset []))) = 1"
  using retry_bound[of fetch_process_error "''C''" "''http://x/c''" 1 "reset []"]
  by (simp add: fetch_process_error_def MAX_RETRIES_def reset_def)

section \<open>Success needs an artifact\<close>

lemma started_fields [simp]:
  "fst (started f t u n w) = fst (f (calls w) t u (store w))"
  "store (snd (started f t u n w)) = snd (f (calls w) t u (store w))"
  "calls (snd (started f t u n w)) = calls w + 1"
  "out (snd (started f t u n w)) = out w @ [Line (completed_count w + 1) n Downloading t]"
  by simp_all

lemma download_video_success_exists:
  "fst (download_video f t u n rc w) \<longrightarrow>
   video_exists (store (snd (download_video f t u n rc w))) t"
proof (induction rc w rule: dv_induct[where f=f and t=t and u=u and n=n])
  case (attempt rc w)
  show ?case
  proof (cases "fst (started f t u n w) = TimeoutExpired \<or>
                fst (started f t u n w) = CalledProcessError")
    case fails: True
    show ?thesis
    proof (cases "rc < MAX_RETRIES")
      case True
      note ih = attempt[OF fails True]
      from ih[of "TimeoutRetry (rc + 1)"] ih[of "Retry (rc + 1)"] fails True show ?thesis
        by (auto simp add: dv_unfold)
    next
      case False
      with fails show ?thesis by (auto simp add: dv_unfold)
    qed
  next
    case False
    then show ?thesis
      by (cases "fst (started f t u n w)") (simp_all add: dv_unfold probe_is_video_exists)
  qed
qed

text \<open>
  Claim C4. \<open>download_video\<close> returns \<open>True\<close>, and counts a success, only if a file
  \<open>title.ext\<close> with one of the four extensions is in the output store that the last run
  of the fetch process left (nothing after that run changes the store). A fetch that exits
  with status zero and leaves no such file makes \<open>download_video\<close> return \<open>False\<close>
  and count a failure, not a success.
\<close>

theorem success_requires_artifact:
  "(fst (download_video f t u n rc w) \<longrightarrow>
      (\<exists>ext \<in> set extensions.
         os_path_exists (store (snd (download_video f t u n rc w)))
           (os_path_join OUTPUT_DIR (t @ ext))) \<and>
      success_count (snd (download_video f t u n rc w)) = success_count w + 1) \<and>
   (f (calls w) t u (store w) = (Exit0, st') \<and> \<not> video_exists st' t \<longrightarrow>
      \<not> fst (download_video f t u n rc w) \<and>
      success_count (snd (download_video f t u n rc w)) = success_count w \<and>
      fail_count (snd (download_video f t u n rc w)) = fail_count w + 1)"
proof (intro conjI impI)
  assume ok: "fst (download_video f t u n rc w)"
  with download_video_success_exists[of f t u n rc w]
  show "\<exists>ext \<in> set extensions.
         os_path_exists (store (snd (download_video f t u n rc w)))
           (os_path_join OUTPUT_DIR (t @ ext))"
    by (simp add: video_exists_def exists_loop_iff)
  from ok download_video_counts[of f t u n rc w]
  show "success_count (snd (download_video f t u n rc w)) = success_count w + 1"
    by simp
next
  assume a: "f (calls w) t u (store w) = (Exit0, st') \<and> \<not> video_exists st' t"
  then have no: "\<not> fst (download_video f t u n rc w)"
    by (simp add: dv_exit0 probe_is_video_exists)
  then show "\<not> fst (download_video f t u n rc w)" .
  from no download_video_counts[of f t u n rc w]
  show "success_count (snd (download_video f t u n rc w)) = success_count w"
    "fail_count (snd (download_video f t u n rc w)) = fail_count w + 1"
    by simp_all
qed

theorem success_requires_artifact_witness:
  "fst (download_video fetch_mp4 ''A'' ''http://x/a'' 1 0 (reset [])) \<and>
   (\<exists>ext \<in> set extensions.
      os_path_exists (store (snd (download_video fetch_mp4 ''A'' ''http://x/a'' 1 0 (reset []))))
        (os_path_join OUTPUT_DIR (''A'' @ ext))) \<and>
   fetch_nothing (calls (reset [])) ''A'' ''http://x/a'' (store (reset [])) = (Exit0, []) \<and>
   \<not> video_exists [] ''A'' \<and>
   \<not> fst (download_video fetch_nothing ''A'' ''http://x/a'' 1 0 (reset [])) \<and>
   fail_count (snd (download_video fetch_nothing ''A'' ''http://x/a'' 1 0 (reset []))) = 1"
proof -
  have ok: "fst (download_video fetch_mp4 ''A'' ''http://x/a'' 1 0 (reset []))"
    by code_simp
  have h: "fetch_nothing (calls (reset [])) ''A'' ''http://x/a'' (store (reset [])) = (Exit0, [])"
    by (simp add: fetch_nothing_def reset_def)
  have e: "\<not> video_exists [] ''A''"
    by code_simp
  from ok h e
    success_requires_artifact[of fetch_mp4 "''A''" "''http://x/a''" 1 0 "reset []"]
    success_requires_artifact[of fetch_nothing "''A''" "''http://x/a''" 1 0 "reset []" "[]"]
  show ?thesis
    by (simp add: reset_def)
qed

section \<open>Items that are already there\<close>

text \<open>
  Claim C5. When \<open>video_exists\<close> finds the title in the output store, the wrapper
  returns the status \<open>skipped\<close> at once: \<open>skip_count\<close> and \<open>completed_count\<close> go up by
  one, the line printed carries the new \<open>completed_count\<close>, \<open>download_video\<close> is not
  called, and the fetch process is not run (\<open>calls\<close> and the store stay as they are).
\<close>

theorem existing_item_skipped:
  "video_exists (store w) (title v) \<Longrightarrow>
   download_video_wrapper f v n w =
     ((title v, skipped), print (Line (completed_count w + 1) n Skipping (title v)) (count_skip w)) \<and>
   calls (snd (download_video_wrapper f v n w)) = calls w \<and>
   store (snd (download_video_wrapper f v n w)) = store w \<and>
   skip_count (snd (download_video_wrapper f v n w)) = skip_count w + 1 \<and>
   completed_count (snd (download_video_wrapper f v n w)) = completed_count w + 1 \<and>
   success_count (snd (download_video_wrapper f v n w)) = success_count w \<and>
   fail_count (snd (download_video_wrapper f v n w)) = fail_count w"
  by (simp add: download_video_wrapper_def Let_def)

theorem existing_item_skipped_witness:
  "video_exists (store (reset [''Videos/Trim_Videos/raw_video/A.mp4''])) (title video_A) \<and>
   main_sequential fetch_mp4 [video_A] [''Videos/Trim_Videos/raw_video/A.mp4''] =
     ([(''A'', skipped)],
      \<lparr>success_count = 0, skip_count = 1, fail_count = 0, completed_count = 1,
       store = [''Videos/Trim_Videos/raw_video/A.mp4''], calls = 0,
       out = [Line 1 1 Skipping ''A'']\<rparr>)"
proof -
  have e: "video_exists (store (reset [''Videos/Trim_Videos/raw_video/A.mp4''])) (title video_A)"
    by code_simp
  from e existing_item_skipped[OF e, of fetch_mp4 1] show ?thesis
    by (simp add: main_sequential_def video_A_def reset_def print_def count_skip_def)
qed

section \<open>The wrapper and the sequential loop, unfolded\<close>

lemma world_eqI:
  "success_count a = success_count b \<Longrightarrow> skip_count a = skip_count b \<Longrightarrow>
   fail_count a = fail_count b \<Longrightarrow> completed_count a = completed_count b \<Longrightarrow>
   store a = store b \<Longrightarrow> calls a = calls b \<Longrightarrow> out a = out b \<Longrightarrow> a = b"
  for a b :: world
  by simp

lemma wrapper_skip:
  "video_exists (store w) (title v) \<Longrightarrow>
   download_video_wrapper f v n w =
     ((title v, skipped), print (Line (completed_count w + 1) n Skipping (title v)) (count_skip w))"
  by (simp add: download_video_wrapper_def Let_def)

lemma wrapper_download:
  "\<not> video_exists (store w) (title v) \<Longrightarrow>
   download_video_wrapper f v n w =
     ((title v, if fst (download_video f (title v) (url v) n 0 w) then success else failed),
      snd (download_video f (title v) (url v) n 0 w))"
  by (simp add: download_video_wrapper_def split: prod.splits)

lemma wrapper_title: "fst (fst (download_video_wrapper f v n w)) = title v"
  by (cases "video_exists (store w) (title v)") (simp_all add: wrapper_skip wrapper_download)

lemma for_videos_Cons:
  "for_videos f n (v # vs) w =
     (fst (download_video_wrapper f v n w) #
        fst (for_videos f n vs (snd (download_video_wrapper f v n w))),
      snd (for_videos f n vs (snd (download_video_wrapper f v n w))))"
  by (simp split: prod.splits)

lemma for_videos_length: "length (fst (for_videos f n vs w)) = length vs"
  by (induction vs arbitrary: w) (simp_all add: for_videos_Cons del: for_videos.simps(2))

lemma for_videos_titles: "map fst (fst (for_videos f n vs w)) = map title vs"
  by (induction vs arbitrary: w)
     (simp_all add: for_videos_Cons wrapper_title del: for_videos.simps(2))

section \<open>A fetch that reports success and leaves nothing\<close>

text \<open>
  A fetch that exits with status zero and writes no file is not retried: for the item
  \<open>A\<close> the fetch process runs once, not \<open>MAX_RETRIES + 1\<close> times, and no retry line
  is printed.
\<close>

theorem mismatch_retry_counterexample:
  "fetch_nothing 0 ''A'' ''http://x/a'' [] = (Exit0, []) \<and>
   \<not> video_exists [] ''A'' \<and>
   calls (snd (download_video fetch_nothing ''A'' ''http://x/a'' 1 0 (reset []))) \<noteq>
     nat (MAX_RETRIES + 1) \<and>
   out (snd (download_video fetch_nothing ''A'' ''http://x/a'' 1 0 (reset []))) =
     [Line 1 1 Downloading ''A'', Line 1 1 FileNotFound ''A'']"
  by code_simp

text \<open>
  Claim C3, amended. A fetch that exits with status zero and leaves no artifact is not
  retried: whatever \<open>retry_count\<close> is, the call of \<open>download_video\<close> in which it happens
  returns \<open>False\<close> after that one run of the fetch process, having counted the item once
  as failed and once as completed and printed the file-not-found line. A timeout and a
  non-zero exit status are retried while \<open>retry_count < MAX_RETRIES\<close>.
\<close>

theorem mismatch_fails_at_once:
  "(f (calls w) t u (store w) = (Exit0, st') \<and> \<not> video_exists st' t \<longrightarrow>
      download_video f t u n rc w =
        (False,
         w\<lparr>fail_count := fail_count w + 1, completed_count := completed_count w + 1,
           store := st', calls := calls w + 1,
           out := out w @ [Line (completed_count w + 1) n Downloading t,
                           Line (completed_count w + 1) n FileNotFound t]\<rparr>)) \<and>
   (fst (f (calls w) t u (store w)) = TimeoutExpired \<and> rc < MAX_RETRIES \<longrightarrow>
      download_video f t u n rc w =
        download_video f t u n (rc + 1)
          (print (Line (completed_count w + 1) n (TimeoutRetry (rc + 1)) t)
             (snd (started f t u n w)))) \<and>
   (fst (f (calls w) t u (store w)) = CalledProcessError \<and> rc < MAX_RETRIES \<longrightarrow>
      download_video f t u n rc w =
        download_video f t u n (rc + 1)
          (print (Line (completed_count w + 1) n (Retry (rc + 1)) t)
             (snd (started f t u n w))))"
proof (intro conjI impI)
  assume a: "f (calls w) t u (store w) = (Exit0, st') \<and> \<not> video_exists st' t"
  then have "download_video f t u n rc w =
      (False, print (Line (completed_count w + 1) n FileNotFound t)
                (count_fail (snd (started f t u n w))))"
    by (simp add: dv_exit0 probe_is_video_exists)
  moreover have "print (Line (completed_count w + 1) n FileNotFound t)
                (count_fail (snd (started f t u n w))) =
         w\<lparr>fail_count := fail_count w + 1, completed_count := completed_count w + 1,
           store := st', calls := calls w + 1,
           out := out w @ [Line (completed_count w + 1) n Downloading t,
                           Line (completed_count w + 1) n FileNotFound t]\<rparr>"
    using a by (intro world_eqI) simp_all
  ultimately show "download_video f t u n rc w =
        (False,
         w\<lparr>fail_count := fail_count w + 1, completed_count := completed_count w + 1,
           store := st', calls := calls w + 1,
           out := out w @ [Line (completed_count w + 1) n Downloading t,
                           Line (completed_count w + 1) n FileNotFound t]\<rparr>)"
    by simp
next
  assume "fst (f (calls w) t u (store w)) = TimeoutExpired \<and> rc < MAX_RETRIES"
  then show "download_video f t u n rc w =
        download_video f t u n (rc + 1)
          (print (Line (completed_count w + 1) n (TimeoutRetry (rc + 1)) t)
             (snd (started f t u n w)))"
    by (simp add: dv_timeout_retry)
next
  assume "fst (f (calls w) t u (store w)) = CalledProcessError \<and> rc < MAX_RETRIES"
  then show "download_video f t u n rc w =
        download_video f t u n (rc + 1)
          (print (Line (completed_count w + 1) n (Retry (rc + 1)) t)
             (snd (started f t u n w)))"
    by (simp add: dv_proc_retry)
qed

theorem mismatch_fails_at_once_witness:
  "fetch_nothing (calls (reset [])) ''A'' ''http://x/a'' (store (reset [])) = (Exit0, []) \<and>
   \<not> video_exists [] ''A'' \<and>
   download_video fetch_nothing ''A'' ''http://x/a'' 1 0 (reset []) =
     (False,
      \<lparr>success_count = 0, skip_count = 0, fail_count = 1, completed_count = 1,
       store = [], calls = 1,
       out = [Line 1 1 Downloading ''A'', Line 1 1 FileNotFound ''A'']\<rparr>) \<and>
   fst (fetch_timeout (calls (reset [])) ''A'' ''http://x/a'' (store (reset []))) = TimeoutExpired \<and>
   (0::int) < MAX_RETRIES \<and>
   download_video fetch_timeout ''A'' ''http://x/a'' 1 0 (reset []) =
     download_video fetch_timeout ''A'' ''http://x/a'' 1 1
       \<lparr>success_count = 0, skip_count = 0, fail_count = 0, completed_count = 0,
        store = [], calls = 1,
        out = [Line 1 1 Downloading ''A'', Line 1 1 (TimeoutRetry 1) ''A'']\<rparr> \<and>
   fst (fetch_process_error (calls (reset [])) ''A'' ''http://x/a'' (store (reset []))) =
     CalledProcessError \<and>
   download_video fetch_process_error ''A'' ''http://x/a'' 1 0 (reset []) =
     download_video fetch_process_error ''A'' ''http://x/a'' 1 1
       \<lparr>success_count = 0, skip_count = 0, fail_count = 0, completed_count = 0,
        store = [], calls = 1,
        out = [Line 1 1 Downloading ''A'', Line 1 1 (Retry 1) ''A'']\<rparr>"
proof -
  have h: "fetch_nothing (calls (reset [])) ''A'' ''http://x/a'' (store (reset [])) = (Exit0, [])"
    by (simp add: fetch_nothing_def reset_def)
  have e: "\<not> video_exists [] ''A''"
    by code_simp
  have m: "(0::int) < MAX_RETRIES"
    by (simp add: MAX_RETRIES_def)
  from h e m
    mismatch_fails_at_once[of fetch_nothing "reset []" "''A''" "''http://x/a''" "[]" 1 0]
    mismatch_fails_at_once[of fetch_timeout "reset []" "''A''" "''http://x/a''" "[]" 1 0]
    mismatch_fails_at_once[of fetch_process_error "reset []" "''A''" "''http://x/a''" "[]" 1 0]
  show ?thesis
    by (simp add: reset_def fetch_timeout_def fetch_process_error_def print_def
        subprocess_run_def)
qed

section \<open>Exceptions outside the three failure variants\<close>



section \<open>What the sequential loop prints\<close>

lemma download_video_out:
  "\<exists>ls. out (snd (download_video f t u n rc w)) = out w @ ls \<and>
        (\<forall>l \<in> set ls. seq l = completed_count w + 1 \<and> tot l = n \<and> subject l = t) \<and>
        length (filter final_line ls) = 1"
proof (induction rc w rule: dv_induct[where f=f and t=t and u=u and n=n])
  case (attempt rc w)
  let ?c = "completed_count w + 1"
  show ?case
  proof (cases "fst (started f t u n w) = TimeoutExpired \<or>
                fst (started f t u n w) = CalledProcessError")
    case fails: True
    show ?thesis
    proof (cases "rc < MAX_RETRIES")
      case True
      define m where "m = (if fst (started f t u n w) = TimeoutExpired
                           then TimeoutRetry (rc + 1) else Retry (rc + 1))"
      define w' where "w' = print (Line ?c n m t) (snd (started f t u n w))"
      have eq: "download_video f t u n rc w = download_video f t u n (rc + 1) w'"
        using fails True by (auto simp add: dv_unfold m_def w'_def)
      from attempt[OF fails True, of m] obtain ls where
        ls: "out (snd (download_video f t u n (rc + 1) w')) = out w' @ ls"
          "\<forall>l \<in> set ls. seq l = completed_count w' + 1 \<and> tot l = n \<and> subject l = t"
          "length (filter final_line ls) = 1"
        unfolding w'_def by blast
      have nt: "\<not> final_line (Line ?c n m t)" "\<not> final_line (Line ?c n Downloading t)"
        by (simp_all add: m_def final_line_def)
      have "out (snd (download_video f t u n rc w)) =
              out w @ ([Line ?c n Downloading t, Line ?c n m t] @ ls)"
        using ls(1) by (simp add: eq w'_def)
      moreover have "\<forall>l \<in> set ([Line ?c n Downloading t, Line ?c n m t] @ ls).
                       seq l = ?c \<and> tot l = n \<and> subject l = t"
        using ls(2) by (simp add: w'_def)
      moreover have "length (filter final_line
                       ([Line ?c n Downloading t, Line ?c n m t] @ ls)) = 1"
        using ls(3) nt by simp
      ultimately show ?thesis by blast
    next
      case False
      define m where "m = (if fst (started f t u n w) = TimeoutExpired
                           then TimeoutFailed else DownloadFailed)"
      have "out (snd (download_video f t u n rc w)) =
              out w @ [Line ?c n Downloading t, Line ?c n m t]"
        using fails False by (auto simp add: dv_unfold m_def)
      moreover have "final_line (Line ?c n m t)" "\<not> final_line (Line ?c n Downloading t)"
        by (simp_all add: m_def final_line_def)
      ultimately show ?thesis
        by (intro exI[of _ "[Line ?c n Downloading t, Line ?c n m t]"]) simp
    qed
  next
    case False
    define m where "m = (if fst (started f t u n w) = OtherException then DownloadError
       else if truthy (find_downloaded (store (snd (started f t u n w))) t extensions)
       then Downloaded else FileNotFound)"
    have "out (snd (download_video f t u n rc w)) =
            out w @ [Line ?c n Downloading t, Line ?c n m t]"
      using False by (cases "fst (started f t u n w)") (simp_all add: dv_unfold m_def)
    moreover have "final_line (Line ?c n m t)" "\<not> final_line (Line ?c n Downloading t)"
      by (simp_all add: m_def final_line_def)
    ultimately show ?thesis
      by (intro exI[of _ "[Line ?c n Downloading t, Line ?c n m t]"]) simp
  qed
qed

lemma wrapper_counts:
  "completed_count (snd (download_video_wrapper f v n w)) = completed_count w + 1"
  by (cases "video_exists (store w) (title v)")
     (simp_all add: wrapper_skip wrapper_download download_video_counts)

lemma wrapper_out:
  "\<exists>ls. out (snd (download_video_wrapper f v n w)) = out w @ ls \<and>
        (\<forall>l \<in> set ls. seq l = completed_count w + 1 \<and> tot l = n \<and> subject l = title v) \<and>
        length (filter final_line ls) = 1"
proof (cases "video_exists (store w) (title v)")
  case True
  then show ?thesis
    by (intro exI[of _ "[Line (completed_count w + 1) n Skipping (title v)]"])
       (simp add: wrapper_skip final_line_def)
next
  case False
  then show ?thesis
    using download_video_out[of f "title v" "url v" n 0 w] by (simp add: wrapper_download)
qed

lemma one_terminal:
  assumes "\<forall>l \<in> set ls. seq l = c \<and> subject l = t" "length (filter P ls) = 1"
  shows "map (\<lambda>l. (seq l, subject l)) (filter P ls) = [(c, t)]"
proof -
  from assms(2) obtain l where l: "filter P ls = [l]"
    by (cases "filter P ls") simp_all
  then have "l \<in> set (filter P ls)"
    by simp
  then have "l \<in> set ls"
    by simp
  with assms(1) l show ?thesis by simp
qed

lemma enumerate_shift:
  "map (\<lambda>(i, v). (c + 1 + int i, g v)) (enumerate k vs) =
   map (\<lambda>(i, v). (c + int i, g v)) (enumerate (Suc k) vs)"
  by (induction vs arbitrary: k) simp_all

lemma chunks_shift:
  "list_all2 (\<lambda>chunk (i, v). Q chunk (c + 1 + int i) v) chunks (enumerate k vs) \<Longrightarrow>
   list_all2 (\<lambda>chunk (i, v). Q chunk (c + int i) v) chunks (enumerate (Suc k) vs)"
  by (simp add: enumerate_Suc_eq list_all2_map2 case_prod_unfold add.assoc)

lemma for_videos_terminal_lines:
  "map (\<lambda>l. (seq l, subject l)) (filter final_line (out (snd (for_videos f n vs w)))) =
   map (\<lambda>l. (seq l, subject l)) (filter final_line (out w)) @
   map (\<lambda>(i, v). (completed_count w + int i, title v)) (enumerate 1 vs)"
proof (induction vs arbitrary: w)
  case Nil
  show ?case by simp
next
  case (Cons v vs)
  let ?w1 = "snd (download_video_wrapper f v n w)"
  from wrapper_out[of f v n w] obtain ls where
    ls: "out ?w1 = out w @ ls"
      "\<forall>l \<in> set ls. seq l = completed_count w + 1 \<and> tot l = n \<and> subject l = title v"
      "length (filter final_line ls) = 1"
    by blast
  have one: "map (\<lambda>l. (seq l, subject l)) (filter final_line ls) =
               [(completed_count w + 1, title v)]"
    using ls(2,3) by (intro one_terminal) simp_all
  show ?case
    using Cons[of ?w1] one
    by (simp add: for_videos_Cons ls(1) wrapper_counts enumerate_shift
        del: for_videos.simps(2))
qed

lemma for_videos_chunks:
  "\<exists>chunks. out (snd (for_videos f n vs w)) = out w @ concat chunks \<and>
     list_all2 (\<lambda>chunk (i, v). \<forall>l \<in> set chunk.
         seq l = completed_count w + int i \<and> tot l = n \<and> subject l = title v)
       chunks (enumerate 1 vs)"
proof (induction vs arbitrary: w)
  case Nil
  show ?case by simp
next
  case (Cons v vs)
  let ?w1 = "snd (download_video_wrapper f v n w)"
  from wrapper_out[of f v n w] obtain ls where
    ls: "out ?w1 = out w @ ls"
      "\<forall>l \<in> set ls. seq l = completed_count w + 1 \<and> tot l = n \<and> subject l = title v"
    by blast
  from Cons[of ?w1] obtain chunks where
    ch: "out (snd (for_videos f n vs ?w1)) = out ?w1 @ concat chunks"
      "list_all2 (\<lambda>chunk (i, v). \<forall>l \<in> set chunk.
         seq l = completed_count ?w1 + int i \<and> tot l = n \<and> subject l = title v)
       chunks (enumerate 1 vs)"
    by blast
  have shift: "list_all2 (\<lambda>chunk (i, v). \<forall>l \<in> set chunk.
         seq l = completed_count w + int i \<and> tot l = n \<and> subject l = title v)
       chunks (enumerate 2 vs)"
    using chunks_shift[where Q="\<lambda>chunk j v. \<forall>l \<in> set chunk. seq l = j \<and> tot l = n \<and> subject l = title v"
        and c="completed_count w" and k=1 and chunks=chunks and vs=vs] ch(2)
    unfolding wrapper_counts by (simp add: numeral_2_eq_2)
  have "out (snd (for_videos f n (v # vs) w)) = out w @ concat (ls # chunks)"
    by (simp add: for_videos_Cons ch(1) ls(1) del: for_videos.simps(2))
  moreover have "list_all2 (\<lambda>chunk (i, v). \<forall>l \<in> set chunk.
         seq l = completed_count w + int i \<and> tot l = n \<and> subject l = title v)
       (ls # chunks) (enumerate 1 (v # vs))"
    using ls(2) shift by (simp add: numeral_2_eq_2)
  ultimately show ?case by blast
qed

text \<open>
  Claim C7. With one worker, \<open>main\<close> runs the wrapper on the items one after the other in
  input order: the outcomes come in input order, the lines printed for the \<open>i\<close>-th item
  form one block, the blocks follow each other in input order, and every line of the
  \<open>i\<close>-th block carries the sequence number \<open>i\<close> (counting from 1) and that item's
  title. In particular the lines that report the terminal outcomes carry 1, 2, ... in
  input order.
\<close>

theorem sequential_order:
  "map fst (fst (main_sequential f videos st)) = map title videos \<and>
   map (\<lambda>l. (seq l, subject l))
     (filter final_line (out (snd (main_sequential f videos st)))) =
   map (\<lambda>(i, v). (int i, title v)) (enumerate 1 videos) \<and>
   (\<exists>chunks. out (snd (main_sequential f videos st)) = concat chunks \<and>
      list_all2 (\<lambda>chunk (i, v). \<forall>l \<in> set chunk.
          seq l = int i \<and> tot l = int (length videos) \<and> subject l = title v)
        chunks (enumerate 1 videos))"
proof (intro conjI)
  show "map fst (fst (main_sequential f videos st)) = map title videos"
    by (simp add: main_sequential_def for_videos_titles)
  show "map (\<lambda>l. (seq l, subject l))
     (filter final_line (out (snd (main_sequential f videos st)))) =
   map (\<lambda>(i, v). (int i, title v)) (enumerate 1 videos)"
    using for_videos_terminal_lines[of f "int (length videos)" videos "reset st"]
    by (simp add: main_sequential_def reset_def)
  show "\<exists>chunks. out (snd (main_sequential f videos st)) = concat chunks \<and>
      list_all2 (\<lambda>chunk (i, v). \<forall>l \<in> set chunk.
          seq l = int i \<and> tot l = int (length videos) \<and> subject l = title v)
        chunks (enumerate 1 videos)"
    using for_videos_chunks[of f "int (length videos)" videos "reset st"]
    by (simp add: main_sequential_def reset_def)
qed

theorem sequential_order_witness:
  "map fst (fst (main_sequential fetch_mp4 [video_A, video_B] [])) = [''A'', ''B''] \<and>
   map (\<lambda>l. (seq l, subject l))
     (filter final_line (out (snd (main_sequential fetch_mp4 [video_A, video_B] [])))) =
   [(1, ''A''), (2, ''B'')]"
  using sequential_order[of fetch_mp4 "[video_A, video_B]" "[]"]
  by (simp add: video_A_def video_B_def)

section \<open>Items that did not fail have an artifact\<close>








section \<open>The rows that become work items\<close>

lemma read_rows_view:
  assumes tk: "tk = (if row ''Title'' \<noteq> None then ''Title'' else ''title'')"
    and uk: "uk = (if row ''URL'' \<noteq> None then ''URL'' else ''url'')"
  shows "read_rows (row # rows) acc =
      (if row tk = None \<or> row uk = None then read_rows rows acc
       else (case (row tk, row uk) of
               (Some (Some t), Some (Some u)) \<Rightarrow>
                 (if strip t = [] \<or> strip u = [] then read_rows rows acc
                  else if lower (strip u) = ''privacy url'' \<or> \<not> startswith (strip u) ''http''
                  then read_rows rows acc
                  else read_rows rows (acc @ [\<lparr>title = strip t, url = strip u\<rparr>]))
             | _ \<Rightarrow> Inl (SystemExit 1)))"
    and "lacks_column row ''Title'' ''title'' = (row tk = None)"
    and "lacks_column row ''URL'' ''url'' = (row uk = None)"
    and "cell row ''Title'' ''title'' = (case row tk of Some (Some s) \<Rightarrow> strip s | _ \<Rightarrow> [])"
    and "cell row ''URL'' ''url'' = (case row uk of Some (Some s) \<Rightarrow> strip s | _ \<Rightarrow> [])"
    and "no_missing_cell row =
           (row tk = None \<or> row uk = None \<or> (row tk \<noteq> Some None \<and> row uk \<noteq> Some None))"
proof -
  show "read_rows (row # rows) acc =
      (if row tk = None \<or> row uk = None then read_rows rows acc
       else (case (row tk, row uk) of
               (Some (Some t), Some (Some u)) \<Rightarrow>
                 (if strip t = [] \<or> strip u = [] then read_rows rows acc
                  else if lower (strip u) = ''privacy url'' \<or> \<not> startswith (strip u) ''http''
                  then read_rows rows acc
                  else read_rows rows (acc @ [\<lparr>title = strip t, url = strip u\<rparr>]))
             | _ \<Rightarrow> Inl (SystemExit 1)))"
    unfolding tk uk by (simp only: read_rows.simps Let_def)
  show "lacks_column row ''Title'' ''title'' = (row tk = None)"
    unfolding tk lacks_column_def by (cases "row ''Title''") simp_all
  show "lacks_column row ''URL'' ''url'' = (row uk = None)"
    unfolding uk lacks_column_def by (cases "row ''URL''") simp_all
  show "cell row ''Title'' ''title'' = (case row tk of Some (Some s) \<Rightarrow> strip s | _ \<Rightarrow> [])"
    unfolding tk cell_def ..
  show "cell row ''URL'' ''url'' = (case row uk of Some (Some s) \<Rightarrow> strip s | _ \<Rightarrow> [])"
    unfolding uk cell_def ..
  show "no_missing_cell row =
           (row tk = None \<or> row uk = None \<or> (row tk \<noteq> Some None \<and> row uk \<noteq> Some None))"
    unfolding no_missing_cell_def
      \<open>lacks_column row ''Title'' ''title'' = (row tk = None)\<close>
      \<open>lacks_column row ''URL'' ''url'' = (row uk = None)\<close>
    unfolding tk uk ..
qed

lemma read_rows_Cons_lacks:
  "lacks_column row ''Title'' ''title'' \<or> lacks_column row ''URL'' ''url'' \<Longrightarrow>
   read_rows (row # rows) acc = read_rows rows acc"
  unfolding read_rows_view[OF refl refl] by (simp only: if_True)

lemma excluded_lacks:
  "lacks_column row ''Title'' ''title'' \<or> lacks_column row ''URL'' ''url'' \<Longrightarrow> excluded row"
  by (auto simp add: excluded_def)

lemma read_rows_Cons_missing:
  assumes "\<not> lacks_column row ''Title'' ''title''" "\<not> lacks_column row ''URL'' ''url''"
    "\<not> no_missing_cell row"
  shows "read_rows (row # rows) acc = Inl (SystemExit 1)"
proof -
  define tk where "tk = (if row ''Title'' \<noteq> None then ''Title'' else ''title'')"
  define uk where "uk = (if row ''URL'' \<noteq> None then ''URL'' else ''url'')"
  note v = read_rows_view[OF tk_def uk_def]
  from assms have "row tk \<noteq> None" "row uk \<noteq> None" "row tk = Some None \<or> row uk = Some None"
    unfolding v by simp_all
  then show ?thesis
    unfolding v(1) by (auto split: option.splits)
qed

lemma read_rows_Cons_cells:
  assumes "\<not> lacks_column row ''Title'' ''title''" "\<not> lacks_column row ''URL'' ''url''"
    "no_missing_cell row"
  shows "read_rows (row # rows) acc =
     (if excluded row then read_rows rows acc else read_rows rows (acc @ [work_item row]))"
proof -
  define tk where "tk = (if row ''Title'' \<noteq> None then ''Title'' else ''title'')"
  define uk where "uk = (if row ''URL'' \<noteq> None then ''URL'' else ''url'')"
  note v = read_rows_view[OF tk_def uk_def]
  from assms obtain t u where tu: "row tk = Some (Some t)" "row uk = Some (Some u)"
    unfolding v by (cases "row tk"; cases "row uk") auto
  have ex: "excluded row = (strip t = [] \<or> strip u = [] \<or> lower (strip u) = ''privacy url'' \<or>
                            \<not> startswith (strip u) ''http'')"
    unfolding excluded_def v(2-5) tu by simp
  have wi: "work_item row = \<lparr>title = strip t, url = strip u\<rparr>"
    unfolding work_item_def v(4,5) tu by simp
  show ?thesis
    unfolding v(1) ex wi tu by simp
qed

lemma read_rows_Inr:
  "read_rows rows acc = Inr videos \<Longrightarrow>
   videos = acc @ map work_item (filter (\<lambda>row. \<not> excluded row) rows)"
proof (induction rows arbitrary: acc)
  case Nil
  then show ?case by simp
next
  case (Cons row rows)
  show ?case
  proof (cases "lacks_column row ''Title'' ''title'' \<or> lacks_column row ''URL'' ''url''")
    case True
    with Cons.prems have "read_rows rows acc = Inr videos"
      by (simp only: read_rows_Cons_lacks)
    from Cons.IH[OF this] True show ?thesis
      by (simp add: excluded_lacks)
  next
    case False
    then have l: "\<not> lacks_column row ''Title'' ''title''" "\<not> lacks_column row ''URL'' ''url''"
      by simp_all
    show ?thesis
    proof (cases "no_missing_cell row")
      case True
      from Cons.prems have "(if excluded row then read_rows rows acc
                             else read_rows rows (acc @ [work_item row])) = Inr videos"
        by (simp only: read_rows_Cons_cells[OF l True])
      then show ?thesis
        using Cons.IH[of acc] Cons.IH[of "acc @ [work_item row]"]
        by (simp split: if_splits)
    next
      case False
      from Cons.prems show ?thesis
        by (simp only: read_rows_Cons_missing[OF l False]) simp
    qed
  qed
qed

lemma read_rows_total:
  "list_all no_missing_cell rows \<Longrightarrow>
   read_rows rows acc = Inr (acc @ map work_item (filter (\<lambda>row. \<not> excluded row) rows))"
proof (induction rows arbitrary: acc)
  case Nil
  show ?case by simp
next
  case (Cons row rows)
  then have ok: "no_missing_cell row" and rest: "list_all no_missing_cell rows"
    by simp_all
  show ?case
  proof (cases "lacks_column row ''Title'' ''title'' \<or> lacks_column row ''URL'' ''url''")
    case True
    then show ?thesis
      using Cons.IH[OF rest, of acc]
      by (simp only: read_rows_Cons_lacks) (simp add: excluded_lacks)
  next
    case False
    then have l: "\<not> lacks_column row ''Title'' ''title''" "\<not> lacks_column row ''URL'' ''url''"
      by simp_all
    show ?thesis
      using Cons.IH[OF rest, of acc] Cons.IH[OF rest, of "acc @ [work_item row]"]
      by (simp only: read_rows_Cons_cells[OF l ok]) simp
  qed
qed

text \<open>
  Claim C10. When \<open>read_video_urls\<close> returns a list, the list is made, in row order, of
  the rows that are not left out, each giving its trimmed title and URL: a row is left out
  when it has no title column or no URL column, when its trimmed title or URL is empty,
  when its URL is \<open>privacy url\<close> in any letter case, or when its URL does not start with
  \<open>http\<close>. So a row that is left out is not counted in \<open>len(videos)\<close>, the total of
  the batch. The function does return a list when no row has a missing cell under the
  columns it reads (with such a cell it ends the process with status 1 instead).
\<close>

theorem read_video_urls_filters:
  "(read_video_urls (Some rows) = Inr videos \<longrightarrow>
      videos = map work_item (filter (\<lambda>row. \<not> excluded row) rows) \<and>
      length videos = length (filter (\<lambda>row. \<not> excluded row) rows)) \<and>
   (list_all no_missing_cell rows \<longrightarrow>
      read_video_urls (Some rows) = Inr (map work_item (filter (\<lambda>row. \<not> excluded row) rows)))"
proof (intro conjI impI)
  assume a: "read_video_urls (Some rows) = Inr videos"
  then show v: "videos = map work_item (filter (\<lambda>row. \<not> excluded row) rows)"
    using read_rows_Inr[of rows "[]" videos] by (simp add: read_video_urls_def)
  then show "length videos = length (filter (\<lambda>row. \<not> excluded row) rows)"
    by simp
next
  assume "list_all no_missing_cell rows"
  then show "read_video_urls (Some rows) =
      Inr (map work_item (filter (\<lambda>row. \<not> excluded row) rows))"
    using read_rows_total[of rows "[]"] by (simp add: read_video_urls_def)
qed

lemma scenario_rows:
  "excluded row_private" "excluded row_no_url" "excluded row_ftp" "excluded row_blank_title"
  "\<not> excluded row_good" "work_item row_good = \<lparr>title = ''A'', url = ''http://x/a''\<rparr>"
  "no_missing_cell row_good" "no_missing_cell row_private" "no_missing_cell row_no_url"
  "no_missing_cell row_ftp" "no_missing_cell row_blank_title"
  by code_simp+

theorem read_video_urls_filters_witness:
  "list_all no_missing_cell [row_private, row_good, row_no_url, row_ftp, row_blank_title] \<and>
   excluded row_private \<and> excluded row_no_url \<and> excluded row_ftp \<and> excluded row_blank_title \<and>
   read_video_urls (Some [row_private, row_good, row_no_url, row_ftp, row_blank_title]) =
     Inr [\<lparr>title = ''A'', url = ''http://x/a''\<rparr>]"
proof -
  have nm: "list_all no_missing_cell [row_private, row_good, row_no_url, row_ftp, row_blank_title]"
    by (simp add: scenario_rows)
  have kept: "map work_item (filter (\<lambda>row. \<not> excluded row)
                [row_private, row_good, row_no_url, row_ftp, row_blank_title]) =
              [\<lparr>title = ''A'', url = ''http://x/a''\<rparr>]"
    by (simp add: scenario_rows)
  from read_video_urls_filters[of "[row_private, row_good, row_no_url, row_ftp, row_blank_title]" "[]"]
    nm
  have "read_video_urls (Some [row_private, row_good, row_no_url, row_ftp, row_blank_title]) =
      Inr (map work_item (filter (\<lambda>row. \<not> excluded row)
             [row_private, row_good, row_no_url, row_ftp, row_blank_title]))"
    by blast
  with nm kept show ?thesis
    by (simp only: scenario_rows simp_thms)
qed

section \<open>The counters under every interleaving\<close>



lemma step_length [simp]: "length (workers (step m f vs c i)) = length (workers c)"
  by (simp add: step_def split: prod.splits)


lemma run_length [simp]: "length (workers (run m f vs c s)) = length (workers c)"
  by (induction s arbitrary: c) simp_all





lemma run_append: "run m f vs c (s @ s') = run m f vs (run m f vs c s) s'"
  by (induction s arbitrary: c) simp_all



lemma enabled_not_finished: "enabled m ps i \<Longrightarrow> \<not> finished (ps ! i)"
  by (cases "ps ! i") (simp_all add: enabled_def)










section \<open>Sequence numbers under two workers\<close>

text \<open>
  Claim C6 fails on the code. \<open>download_video\<close> reads \<open>current\<close> in the critical section
  of lines 136-137, before the fetch, and increments \<open>completed_count\<close> in another one
  (lines 157-159), after it; the line that reports the outcome prints the value read
  before. With two workers that take their steps in turn on two items that both download,
  both items are reported with the sequence number 1 and no item with 2. (The skip path,
  lines 210-213, reads the number in the critical section that increments it.)
\<close>

theorem duplicate_sequence_numbers:
  "all_finished (main_concurrent 2 fetch_mp4 [video_A, video_B] [] in_turn) \<and>
   filter final_line (out (shared (main_concurrent 2 fetch_mp4 [video_A, video_B] [] in_turn))) =
     [Line 1 2 Downloaded ''A'', Line 1 2 Downloaded ''B''] \<and>
   \<not> distinct (map seq (filter final_line
          (out (shared (main_concurrent 2 fetch_mp4 [video_A, video_B] [] in_turn)))))"
  by code_simp

section \<open>The pool with one worker and the sequential loop\<close>

text \<open>
  A worker that runs alone from the queue ends in the state the wrapper returns, so the
  pool can always work through the items one after the other as the loop does. With one
  worker there is never a choice of the next step, and every schedule that lets every
  wrapper return ends in the state of the sequential loop.
\<close>

lemma alone_Done [simp]: "(alone f n v ^^ k) (w, Done s) = (w, Done s)"
  by (induction k) (simp_all add: alone_def)

lemma alone_more:
  "(alone f n v ^^ k) x = (w, Done s) \<Longrightarrow> (alone f n v ^^ (k + j)) x = (w, Done s)"
  by (simp add: add.commute[of k j] funpow_add)

lemma alone_chain:
  "(alone f n v ^^ j) x = y \<Longrightarrow> (alone f n v ^^ k) y = z \<Longrightarrow> (alone f n v ^^ (k + j)) x = z"
  by (simp add: funpow_add)

lemma worker_step_AtRun:
  "worker_step f n v w (AtRun rc cur) =
     (snd (subprocess_run f (title v) (url v) w),
      case fst (subprocess_run f (title v) (url v) w) of
        Exit0 \<Rightarrow> AtProbe cur
      | TimeoutExpired \<Rightarrow> AtCaughtTimeout rc
      | CalledProcessError \<Rightarrow> AtCaughtProcess rc
      | OtherException \<Rightarrow> AtCaughtOther)"
proof -
  obtain r w1 where e: "subprocess_run f (title v) (url v) w = (r, w1)"
    by (cases "subprocess_run f (title v) (url v) w")
  show ?thesis
    unfolding worker_step.simps e by (cases r) simp_all
qed

lemma alone_download:
  "\<exists>k. (alone f n v ^^ k) (w, AtReadCurrent rc) =
     (snd (download_video f (title v) (url v) n rc w),
      Done (if fst (download_video f (title v) (url v) n rc w) then success else failed))"
proof (induction rc w rule: dv_induct[where f=f and t="title v" and u="url v" and n=n])
  case (attempt rc w)
  let ?t = "title v" and ?u = "url v" and ?c = "completed_count w + 1"
  let ?w2 = "snd (started f ?t ?u n w)"
  have run3: "(alone f n v ^^ 3) (w, AtReadCurrent rc) =
      (?w2, case fst (started f ?t ?u n w) of
              Exit0 \<Rightarrow> AtProbe ?c
            | TimeoutExpired \<Rightarrow> AtCaughtTimeout rc
            | CalledProcessError \<Rightarrow> AtCaughtProcess rc
            | OtherException \<Rightarrow> AtCaughtOther)"
    by (simp add: eval_nat_numeral alone_def Let_def worker_step_AtRun del: worker_step.simps(5))
  show ?case
  proof (cases "fst (started f ?t ?u n w)")
    case Exit0
    with run3 have a: "(alone f n v ^^ 3) (w, AtReadCurrent rc) = (?w2, AtProbe ?c)"
      by simp
    have b: "(alone f n v ^^ 3) (?w2, AtProbe ?c) =
       (snd (download_video f ?t ?u n rc w),
        Done (if fst (download_video f ?t ?u n rc w) then success else failed))"
      using Exit0 by (simp add: eval_nat_numeral alone_def dv_exit0)
    from alone_chain[OF a b] show ?thesis ..
  next
    case OtherException
    with run3 have a: "(alone f n v ^^ 3) (w, AtReadCurrent rc) = (?w2, AtCaughtOther)"
      by simp
    have b: "(alone f n v ^^ 2) (?w2, AtCaughtOther) =
       (snd (download_video f ?t ?u n rc w),
        Done (if fst (download_video f ?t ?u n rc w) then success else failed))"
      using OtherException by (simp add: eval_nat_numeral alone_def dv_other Let_def)
    from alone_chain[OF a b] show ?thesis ..
  next
    case TimeoutExpired
    with run3 have a: "(alone f n v ^^ 3) (w, AtReadCurrent rc) = (?w2, AtCaughtTimeout rc)"
      by simp
    show ?thesis
    proof (cases "rc < MAX_RETRIES")
      case True
      let ?w3 = "print (Line ?c n (TimeoutRetry (rc + 1)) ?t) ?w2"
      have b: "(alone f n v ^^ 2) (?w2, AtCaughtTimeout rc) = (?w3, AtReadCurrent (rc + 1))"
        using True by (simp add: eval_nat_numeral alone_def Let_def)
      from attempt[OF _ True, of "TimeoutRetry (rc + 1)"] TimeoutExpired obtain k where
        c: "(alone f n v ^^ k) (?w3, AtReadCurrent (rc + 1)) =
           (snd (download_video f ?t ?u n (rc + 1) ?w3),
            Done (if fst (download_video f ?t ?u n (rc + 1) ?w3) then success else failed))"
        by auto
      have eq: "download_video f ?t ?u n rc w = download_video f ?t ?u n (rc + 1) ?w3"
        using TimeoutExpired True by (simp add: dv_timeout_retry)
      from alone_chain[OF alone_chain[OF a b] c] show ?thesis
        unfolding eq ..
    next
      case False
      have b: "(alone f n v ^^ 3) (?w2, AtCaughtTimeout rc) =
         (snd (download_video f ?t ?u n rc w),
          Done (if fst (download_video f ?t ?u n rc w) then success else failed))"
        using TimeoutExpired False by (simp add: eval_nat_numeral alone_def dv_timeout_fail Let_def)
      from alone_chain[OF a b] show ?thesis ..
    qed
  next
    case CalledProcessError
    with run3 have a: "(alone f n v ^^ 3) (w, AtReadCurrent rc) = (?w2, AtCaughtProcess rc)"
      by simp
    show ?thesis
    proof (cases "rc < MAX_RETRIES")
      case True
      let ?w3 = "print (Line ?c n (Retry (rc + 1)) ?t) ?w2"
      have b: "(alone f n v ^^ 2) (?w2, AtCaughtProcess rc) = (?w3, AtReadCurrent (rc + 1))"
        using True by (simp add: eval_nat_numeral alone_def Let_def)
      from attempt[OF _ True, of "Retry (rc + 1)"] CalledProcessError obtain k where
        c: "(alone f n v ^^ k) (?w3, AtReadCurrent (rc + 1)) =
           (snd (download_video f ?t ?u n (rc + 1) ?w3),
            Done (if fst (download_video f ?t ?u n (rc + 1) ?w3) then success else failed))"
        by auto
      have eq: "download_video f ?t ?u n rc w = download_video f ?t ?u n (rc + 1) ?w3"
        using CalledProcessError True by (simp add: dv_proc_retry)
      from alone_chain[OF alone_chain[OF a b] c] show ?thesis
        unfolding eq ..
    next
      case False
      have b: "(alone f n v ^^ 3) (?w2, AtCaughtProcess rc) =
         (snd (download_video f ?t ?u n rc w),
          Done (if fst (download_video f ?t ?u n rc w) then success else failed))"
        using CalledProcessError False by (simp add: eval_nat_numeral alone_def dv_proc_fail Let_def)
      from alone_chain[OF a b] show ?thesis ..
    qed
  qed
qed

lemma alone_wrapper:
  "\<exists>k. (alone f n v ^^ k) (w, Queued) =
     (snd (download_video_wrapper f v n w), Done (snd (fst (download_video_wrapper f v n w))))"
proof (cases "video_exists (store w) (title v)")
  case True
  then have "(alone f n v ^^ 4) (w, Queued) =
     (snd (download_video_wrapper f v n w), Done (snd (fst (download_video_wrapper f v n w))))"
    by (simp add: eval_nat_numeral alone_def wrapper_skip Let_def)
  then show ?thesis ..
next
  case False
  then have a: "(alone f n v ^^ 2) (w, Queued) = (w, AtReadCurrent 0)"
    by (simp add: eval_nat_numeral alone_def)
  from alone_download[of f n v w 0] obtain k where
    b: "(alone f n v ^^ k) (w, AtReadCurrent 0) =
     (snd (download_video f (title v) (url v) n 0 w),
      Done (if fst (download_video f (title v) (url v) n 0 w) then success else failed))" ..
  have "(alone f n v ^^ (k + 2)) (w, Queued) =
     (snd (download_video_wrapper f v n w), Done (snd (fst (download_video_wrapper f v n w))))"
    unfolding wrapper_download[OF False] fst_conv snd_conv by (rule alone_chain[OF a b])
  then show ?thesis ..
qed

lemma picked_up_step:
  "picked_up p \<or> p = Queued \<Longrightarrow> picked_up (snd (worker_step f n v w p))"
proof (cases p)
  case (AtRun rc cur)
  then show ?thesis
    by (cases "fst (subprocess_run f (title v) (url v) w)")
       (simp_all add: worker_step_AtRun del: worker_step.simps(5))
qed (auto simp add: Let_def)

lemma picked_up_disabled:
  "i < length ps \<Longrightarrow> picked_up (ps ! i) \<Longrightarrow> \<not> enabled m ps i \<Longrightarrow> \<exists>s. ps ! i = Done s"
  by (cases "ps ! i") (simp_all add: enabled_def)

lemma step_as_alone:
  assumes "i < length (workers c)" "length (workers c) = length vs"
    "picked_up (workers c ! i) \<or> (workers c ! i = Queued \<and> enabled m (workers c) i)"
  shows "step m f vs c i =
     \<lparr>shared = fst (alone f (int (length vs)) (vs ! i) (shared c, workers c ! i)),
      workers = (workers c)[i := snd (alone f (int (length vs)) (vs ! i) (shared c, workers c ! i))]\<rparr>"
proof (cases "enabled m (workers c) i")
  case True
  with assms(1,2) show ?thesis
    by (simp add: step_def alone_def split: prod.splits)
next
  case False
  with assms obtain s where s: "workers c ! i = Done s"
    using picked_up_disabled[of i "workers c" m] by auto
  from False have "step m f vs c i = c"
    by (simp add: step_def)
  moreover have "(workers c)[i := Done s] = workers c"
    using s by (metis list_update_id)
  ultimately show ?thesis
    by (simp add: alone_def s)
qed

lemma run_alone:
  assumes "i < length (workers c)" "length (workers c) = length vs"
    "picked_up (workers c ! i) \<or> (workers c ! i = Queued \<and> enabled m (workers c) i)"
  shows "run m f vs c (replicate k i) =
     \<lparr>shared = fst ((alone f (int (length vs)) (vs ! i) ^^ k) (shared c, workers c ! i)),
      workers = (workers c)
        [i := snd ((alone f (int (length vs)) (vs ! i) ^^ k) (shared c, workers c ! i))]\<rparr>"
  using assms
proof (induction k arbitrary: c)
  case 0
  then show ?case
    by simp
next
  case (Suc k)
  let ?x = "alone f (int (length vs)) (vs ! i) (shared c, workers c ! i)"
  let ?c1 = "step m f vs c i"
  have c1: "?c1 = \<lparr>shared = fst ?x, workers = (workers c)[i := snd ?x]\<rparr>"
    using Suc.prems by (rule step_as_alone)
  have p: "picked_up (snd ?x)"
    using Suc.prems(3) picked_up_step[of "workers c ! i" f "int (length vs)" "vs ! i" "shared c"]
    by (auto simp add: alone_def)
  have "run m f vs ?c1 (replicate k i) =
     \<lparr>shared = fst ((alone f (int (length vs)) (vs ! i) ^^ k) (shared ?c1, workers ?c1 ! i)),
      workers = (workers ?c1)
        [i := snd ((alone f (int (length vs)) (vs ! i) ^^ k) (shared ?c1, workers ?c1 ! i))]\<rparr>"
    using Suc.prems(1,2) p by (intro Suc.IH) (simp_all add: c1)
  then show ?case
    using Suc.prems(1) by (simp add: c1 funpow_swap1)
qed

lemma for_videos_append:
  "for_videos f n (xs @ ys) w =
     (fst (for_videos f n xs w) @ fst (for_videos f n ys (snd (for_videos f n xs w))),
      snd (for_videos f n ys (snd (for_videos f n xs w))))"
  by (induction xs arbitrary: w) (simp_all add: for_videos_Cons del: for_videos.simps(2))

lemma busy_none: "filter busy (map (\<lambda>r. Done (g r)) rs @ replicate k Queued) = []"
  by (simp add: filter_empty_conv)

lemma one_after_the_other:
  assumes "0 < m" "j \<le> length vs"
  shows "\<exists>s. run m f vs (submitted vs st) s =
     \<lparr>shared = snd (for_videos f (int (length vs)) (take j vs) (reset st)),
      workers = map (\<lambda>r. Done (snd r)) (fst (for_videos f (int (length vs)) (take j vs) (reset st)))
                @ replicate (length vs - j) Queued\<rparr>"
  using assms(2)
proof (induction j)
  case 0
  have "run m f vs (submitted vs st) [] =
     \<lparr>shared = snd (for_videos f (int (length vs)) (take 0 vs) (reset st)),
      workers = map (\<lambda>r. Done (snd r)) (fst (for_videos f (int (length vs)) (take 0 vs) (reset st)))
                @ replicate (length vs - 0) Queued\<rparr>"
    by (simp add: submitted_def)
  then show ?case ..
next
  case (Suc j)
  let ?n = "int (length vs)"
  let ?rs = "fst (for_videos f ?n (take j vs) (reset st))"
  let ?w = "snd (for_videos f ?n (take j vs) (reset st))"
  let ?D = "map (\<lambda>r. Done (snd r)) ?rs"
  let ?c = "\<lparr>shared = ?w, workers = ?D @ replicate (length vs - j) Queued\<rparr>"
  from Suc.prems have j: "j < length vs" by simp
  then obtain r where r: "length vs - j = Suc r" "length vs - Suc j = r"
    by (cases "length vs - j") simp_all
  from Suc.IH j obtain s where s: "run m f vs (submitted vs st) s = ?c"
    by auto
  have lD: "length ?D = j"
    using j by (simp add: for_videos_length)
  have len: "length (workers ?c) = length vs"
    using j lD by simp
  have at: "workers ?c ! j = Queued"
    using lD by (simp add: nth_append r(1))
  have tk: "take j (workers ?c) = ?D"
    using lD by simp
  have en: "enabled m (workers ?c) j"
    unfolding enabled_def at tk using j len assms(1) busy_none[of snd ?rs "length vs - j"]
    by auto
  obtain k where k: "(alone f ?n (vs ! j) ^^ k) (?w, Queued) =
     (snd (download_video_wrapper f (vs ! j) ?n ?w),
      Done (snd (fst (download_video_wrapper f (vs ! j) ?n ?w))))"
    using alone_wrapper[of f ?n "vs ! j" ?w] ..
  have "run m f vs ?c (replicate k j) =
     \<lparr>shared = fst ((alone f ?n (vs ! j) ^^ k) (shared ?c, workers ?c ! j)),
      workers = (workers ?c)[j := snd ((alone f ?n (vs ! j) ^^ k) (shared ?c, workers ?c ! j))]\<rparr>"
    using j len at en by (intro run_alone) simp_all
  then have 1: "run m f vs ?c (replicate k j) =
     \<lparr>shared = snd (download_video_wrapper f (vs ! j) ?n ?w),
      workers = (?D @ replicate (length vs - j) Queued)
        [j := Done (snd (fst (download_video_wrapper f (vs ! j) ?n ?w)))]\<rparr>"
    unfolding at by (simp add: k)
  have upd: "(?D @ replicate (length vs - j) Queued)
        [j := Done (snd (fst (download_video_wrapper f (vs ! j) ?n ?w)))] =
      (?D @ [Done (snd (fst (download_video_wrapper f (vs ! j) ?n ?w)))])
        @ replicate (length vs - Suc j) Queued"
    using lD by (simp add: list_update_append r)
  have tkS: "take (Suc j) vs = take j vs @ [vs ! j]"
    using j by (rule take_Suc_conv_app_nth)
  have 2: "for_videos f ?n (take (Suc j) vs) (reset st) =
      (?rs @ [fst (download_video_wrapper f (vs ! j) ?n ?w)],
       snd (download_video_wrapper f (vs ! j) ?n ?w))"
    unfolding tkS for_videos_append by (simp add: for_videos_Cons del: for_videos.simps(2))
  have "run m f vs (submitted vs st) (s @ replicate k j) =
     \<lparr>shared = snd (for_videos f ?n (take (Suc j) vs) (reset st)),
      workers = map (\<lambda>r. Done (snd r)) (fst (for_videos f ?n (take (Suc j) vs) (reset st)))
                @ replicate (length vs - Suc j) Queued\<rparr>"
    unfolding run_append s 1 upd 2 by simp
  then show ?case ..
qed

lemma sequential_schedule:
  assumes "0 < m"
  shows "\<exists>s. main_concurrent m f vs st s =
     \<lparr>shared = snd (main_sequential f vs st),
      workers = map (\<lambda>r. Done (snd r)) (fst (main_sequential f vs st))\<rparr>"
  using one_after_the_other[OF assms, of "length vs" vs f st]
  by (simp add: main_concurrent_def main_sequential_def)

lemma filter_update_count:
  "i < length ps \<Longrightarrow>
   int (length (filter P (ps[i := p]))) =
     int (length (filter P ps)) + of_bool (P p) - of_bool (P (ps ! i))"
proof (induction ps arbitrary: i)
  case Nil
  then show ?case by simp
next
  case (Cons q ps)
  then show ?case
    by (cases i) auto
qed

lemma one_busy: "j < length ps \<Longrightarrow> busy (ps ! j) \<Longrightarrow> 1 \<le> length (filter busy ps)"
proof -
  assume "j < length ps" "busy (ps ! j)"
  then have "ps ! j \<in> set (filter busy ps)"
    by simp
  then show ?thesis
    by (cases "filter busy ps") simp_all
qed

lemma two_busy:
  "i < j \<Longrightarrow> j < length ps \<Longrightarrow> busy (ps ! i) \<Longrightarrow> busy (ps ! j) \<Longrightarrow>
   2 \<le> length (filter busy ps)"
proof (induction ps arbitrary: i j)
  case Nil
  then show ?case by simp
next
  case (Cons p ps)
  from Cons.prems(1) obtain j' where j': "j = Suc j'"
    by (cases j) simp_all
  show ?case
  proof (cases i)
    case 0
    from Cons.prems j' have "1 \<le> length (filter busy ps)"
      by (intro one_busy[of j']) simp_all
    with 0 Cons.prems(3) show ?thesis by simp
  next
    case (Suc i')
    from Cons.prems j' Suc have "2 \<le> length (filter busy ps)"
      by (intro Cons.IH[of i' j']) simp_all
    then show ?thesis by simp
  qed
qed

lemma enabled_busy_or_queued:
  "enabled m ps i \<Longrightarrow> busy (ps ! i) \<or> ps ! i = Queued"
  by (cases "ps ! i") (simp_all add: enabled_def)

lemma enabled_unique:
  assumes "length (filter busy ps) \<le> 1" "enabled 1 ps i" "enabled 1 ps j"
  shows "i = j"
proof (rule ccontr)
  assume ne: "i \<noteq> j"
  from assms(2,3) have lt: "i < length ps" "j < length ps"
    by (simp_all add: enabled_def)
  consider (bb) "busy (ps ! i)" "busy (ps ! j)" | (q) "ps ! i = Queued \<or> ps ! j = Queued"
    using enabled_busy_or_queued[OF assms(2)] enabled_busy_or_queued[OF assms(3)] by blast
  then show False
  proof cases
    case bb
    from ne have "i < j \<or> j < i" by arith
    with bb lt two_busy[of i j ps] two_busy[of j i ps] have "2 \<le> length (filter busy ps)"
      by blast
    with assms(1) show False by simp
  next
    case q
    have none: "filter busy ps = []" if "ps ! k = Queued" "enabled 1 ps k" for k
      using that by (simp add: enabled_def)
    from q assms(2,3) have nb: "filter busy ps = []"
      using none by blast
    then have "\<not> busy (ps ! i)" "\<not> busy (ps ! j)"
      using lt by (auto simp add: filter_empty_conv)
    with enabled_busy_or_queued[OF assms(2)] enabled_busy_or_queued[OF assms(3)]
    have qi: "ps ! i = Queued" and qj: "ps ! j = Queued"
      by simp_all
    from assms(2) qi have fi: "Queued \<notin> set (take i ps)"
      by (simp add: enabled_def)
    from assms(3) qj have fj: "Queued \<notin> set (take j ps)"
      by (simp add: enabled_def)
    from ne have "i < j \<or> j < i" by arith
    then show False
    proof
      assume "i < j"
      with lt have "ps ! i \<in> set (take j ps)"
        by (metis in_set_conv_nth length_take min_less_iff_conj nth_take)
      with qi fj show False by simp
    next
      assume "j < i"
      with lt have "ps ! j \<in> set (take i ps)"
        by (metis in_set_conv_nth length_take min_less_iff_conj nth_take)
      with qj fi show False by simp
    qed
  qed
qed

lemma step_one_busy:
  assumes "length (filter busy (workers c)) \<le> 1"
  shows "length (filter busy (workers (step 1 f vs c i))) \<le> 1"
proof (cases "enabled 1 (workers c) i \<and> i < length vs")
  case False
  then have "step 1 f vs c i = c"
    unfolding step_def by (simp only: if_False)
  with assms show ?thesis by simp
next
  case True
  then have i: "i < length (workers c)"
    by (simp add: enabled_def)
  let ?r = "worker_step f (int (length vs)) (vs ! i) (shared c) (workers c ! i)"
  have eq: "workers (step 1 f vs c i) = (workers c)[i := snd ?r]"
    using True by (simp add: step_def split: prod.splits)
  note upd = filter_update_count[OF i, of busy "snd ?r"]
  from True enabled_busy_or_queued[of 1 "workers c" i]
  consider "busy (workers c ! i)" | "workers c ! i = Queued" by blast
  then show ?thesis
  proof cases
    case 1
    with upd assms show ?thesis
      unfolding eq by (cases "busy (snd ?r)") simp_all
  next
    case 2
    with True have "filter busy (workers c) = []"
      by (simp add: enabled_def)
    with upd 2 show ?thesis
      unfolding eq by (cases "busy (snd ?r)") simp_all
  qed
qed

lemma finished_step: "all_finished c \<Longrightarrow> step m f vs c i = c"
proof -
  assume a: "all_finished c"
  have "\<not> enabled m (workers c) i"
  proof
    assume e: "enabled m (workers c) i"
    then have "i < length (workers c)"
      by (simp add: enabled_def)
    with a have "finished (workers c ! i)"
      by (simp add: all_finished_def list_all_length)
    with enabled_not_finished[OF e] show False by simp
  qed
  then show ?thesis
    by (simp add: step_def)
qed

lemma finished_run: "all_finished c \<Longrightarrow> run m f vs c s = c"
  by (induction s) (simp_all add: finished_step)

lemma one_worker_next:
  assumes "length (filter busy (workers c)) \<le> 1" "enabled 1 (workers c) i"
  shows "run 1 f vs c t = c \<or> (\<exists>t'. run 1 f vs c t = run 1 f vs (step 1 f vs c i) t')"
proof (induction t)
  case Nil
  show ?case by simp
next
  case (Cons j t)
  show ?case
  proof (cases "enabled 1 (workers c) j \<and> j < length vs")
    case True
    with assms have "j = i"
      using enabled_unique[of "workers c" j i] by simp
    then have "run 1 f vs c (j # t) = run 1 f vs (step 1 f vs c i) t"
      by simp
    then show ?thesis by blast
  next
    case False
    then have "step 1 f vs c j = c"
      unfolding step_def by (simp only: if_False)
    with Cons show ?thesis by simp
  qed
qed

lemma one_worker_confluent:
  assumes "length (filter busy (workers c)) \<le> 1"
    "all_finished (run 1 f vs c s)" "all_finished (run 1 f vs c s')"
  shows "run 1 f vs c s = run 1 f vs c s'"
  using assms
proof (induction s arbitrary: c s')
  case Nil
  then show ?case by (simp add: finished_run)
next
  case (Cons i s)
  show ?case
  proof (cases "enabled 1 (workers c) i \<and> i < length vs")
    case False
    then have "step 1 f vs c i = c"
      unfolding step_def by (simp only: if_False)
    with Cons.IH[of c s'] Cons.prems show ?thesis by simp
  next
    case True
    then have e: "enabled 1 (workers c) i" by simp
    from one_worker_next[OF Cons.prems(1) e, of f vs s']
    show ?thesis
    proof
      assume "run 1 f vs c s' = c"
      with Cons.prems(3) have "all_finished c" by simp
      then have "step 1 f vs c i = c" by (rule finished_step)
      with Cons.IH[of c s'] Cons.prems show ?thesis by simp
    next
      assume "\<exists>t'. run 1 f vs c s' = run 1 f vs (step 1 f vs c i) t'"
      then obtain t' where t': "run 1 f vs c s' = run 1 f vs (step 1 f vs c i) t'" ..
      from Cons.IH[of "step 1 f vs c i" t'] step_one_busy[OF Cons.prems(1)] Cons.prems(2,3) t'
      show ?thesis by simp
    qed
  qed
qed

lemma one_worker_is_sequential:
  assumes "all_finished (main_concurrent 1 f vs st s)"
  shows "main_concurrent 1 f vs st s =
     \<lparr>shared = snd (main_sequential f vs st),
      workers = map (\<lambda>r. Done (snd r)) (fst (main_sequential f vs st))\<rparr>"
proof -
  from sequential_schedule[of 1 f vs st] obtain s0 where
    s0: "main_concurrent 1 f vs st s0 =
     \<lparr>shared = snd (main_sequential f vs st),
      workers = map (\<lambda>r. Done (snd r)) (fst (main_sequential f vs st))\<rparr>"
    by auto
  then have fin: "all_finished (main_concurrent 1 f vs st s0)"
    by (simp add: all_finished_def list_all_iff)
  have "length (filter busy (workers (submitted vs st))) \<le> 1"
    by (simp add: submitted_def)
  from one_worker_confluent[OF this, of f vs s s0] assms fin s0 show ?thesis
    by (simp add: main_concurrent_def)
qed

section \<open>Running the batch again, with any number of workers\<close>













end
